theory Spec2Isabelle
  imports Main
begin

section \<open>NotFlappyBird: data model (src/main.c)\<close>

text \<open>
  The C program keeps its whole state in fixed-size structs. Each struct is a record
  here and each fixed-size array a list whose length is the declared bound. A C
  \<open>int\<close> or \<open>long long\<close> is an \<open>int\<close>. Signed overflow is undefined in C and
  wraps around in the compiled program: \<open>check_collision\<close>, whose result is stated for
  all positions, has the 32-bit wrap-around written out (\<open>wrap32\<close>); elsewhere the
  arithmetic is exact, and a theorem that depends on it says which sums must stay in
  the range of \<open>int\<close> (\<open>in_int\<close>). An \<open>unsigned int\<close> or \<open>size_t\<close> is a
  \<open>nat\<close>, with the wrap-around written out where the code can reach it.

  Behaviour that C leaves undefined (an index outside an array, a remainder by zero)
  is the result \<open>None\<close> of the operation that would perform it.

  Two structs of the source have fields \<open>x\<close> and \<open>y\<close>; they are \<open>pos_x\<close>,
  \<open>pos_y\<close> for an Entity and \<open>obs_x\<close>, \<open>obs_y\<close> for an Obstacle, so that the
  names stay apart (and \<open>x\<close>, \<open>y\<close> stay free for variables). The fields of a
  ScoreCounter that the code never reads are \<open>sc_score\<close>, \<open>sc_x\<close>, \<open>sc_y\<close>.
\<close>

definition SCREEN_WIDTH :: nat where
  "SCREEN_WIDTH = 300"

definition SCREEN_HEIGHT :: nat where
  "SCREEN_HEIGHT = 80"

definition SCORE_COUNTER_DIGITS :: nat where
  "SCORE_COUNTER_DIGITS = 5"

text \<open>The bound of \<open>struct EntityView views[10]\<close> in \<open>struct Entity\<close>.\<close>

definition VIEWS_BOUND :: nat where
  "VIEWS_BOUND = 10"

text \<open>The bound of \<open>entities[25]\<close> and \<open>obstacles[25]\<close> in \<open>struct GameState\<close>.\<close>

definition ARRAY_BOUND :: nat where
  "ARRAY_BOUND = 25"

record EntityView =
  origin_x :: int
  origin_y :: int
  width :: int
  height :: int
  display_size :: nat
  display :: "char list"

text \<open>A zero-initialised view slot (\<open>struct EntityView view = {}\<close>, \<open>display = NULL\<close>).\<close>

definition zero_view :: EntityView where
  "zero_view = \<lparr>origin_x = 0, origin_y = 0, width = 0, height = 0,
                 display_size = 0, display = []\<rparr>"

record Entity =
  pos_x :: int
  pos_y :: int
  num_views :: nat
  current_view :: nat
  views :: "EntityView list"
  visible :: bool

section \<open>Collision detection\<close>

text \<open>
  The range of a 32-bit \<open>int\<close>, and the value a sum or difference of two of them has
  in the compiled program (two's complement).
\<close>

definition in_int :: "int \<Rightarrow> bool" where
  "in_int v = (- (2 ^ 31) \<le> v \<and> v < 2 ^ 31)"

definition wrap32 :: "int \<Rightarrow> int" where
  "wrap32 v = (v + 2 ^ 31) mod 2 ^ 32 - 2 ^ 31"

text \<open>
  \<open>check_collision\<close> (main.c 763-786). Reading \<open>views[current_view]\<close> is inside the
  array exactly when \<open>current_view < 10\<close>. Every subtraction and addition of the
  source is an \<open>int\<close> operation and wraps.
\<close>

definition check_collision :: "Entity \<Rightarrow> Entity \<Rightarrow> bool option" where
  "check_collision entity1 entity2 =
     (if current_view entity1 < VIEWS_BOUND \<and> current_view entity2 < VIEWS_BOUND then
        (let view1 = views entity1 ! current_view entity1;
             view2 = views entity2 ! current_view entity2;
             x1 = wrap32 (pos_x entity1 - origin_x view1);
             y1 = wrap32 (pos_y entity1 - origin_y view1);
             x2 = wrap32 (pos_x entity2 - origin_x view2);
             y2 = wrap32 (pos_y entity2 - origin_y view2);
             w1 = width view1;
             h1 = height view1;
             w2 = width view2;
             h2 = height view2;
             collision_x = ((x1 < x2 \<and> wrap32 (x1 + w1) > x2) \<or>
                            (x2 < x1 \<and> wrap32 (x2 + w2) > x1));
             collision_y = ((y1 < y2 \<and> wrap32 (y1 + h1) > y2) \<or>
                            (y2 < y1 \<and> wrap32 (y2 + h2) > y1))
         in Some (collision_x \<and> collision_y))
      else None)"

text \<open>
  The box of an entity as the specification describes it: the half-open rectangle
  \<open>[x - originX, x - originX + width) \<times> [y - originY, y - originY + height)\<close> of the
  active view, and the usual intersection test of two such rectangles.
\<close>

definition active_view :: "Entity \<Rightarrow> EntityView" where
  "active_view e = views e ! current_view e"

definition box_left :: "Entity \<Rightarrow> int" where
  "box_left e = pos_x e - origin_x (active_view e)"

definition box_top :: "Entity \<Rightarrow> int" where
  "box_top e = pos_y e - origin_y (active_view e)"

definition box_right :: "Entity \<Rightarrow> int" where
  "box_right e = box_left e + width (active_view e)"

definition box_bottom :: "Entity \<Rightarrow> int" where
  "box_bottom e = box_top e + height (active_view e)"

text \<open>Two half-open intervals \<open>[l1, r1)\<close> and \<open>[l2, r2)\<close> share a point.\<close>

definition intervals_meet :: "int \<Rightarrow> int \<Rightarrow> int \<Rightarrow> int \<Rightarrow> bool" where
  "intervals_meet l1 r1 l2 r2 = (max l1 l2 < min r1 r2)"

definition boxes_overlap :: "Entity \<Rightarrow> Entity \<Rightarrow> bool" where
  "boxes_overlap a b =
     (intervals_meet (box_left a) (box_right a) (box_left b) (box_right b) \<and>
      intervals_meet (box_top a) (box_bottom a) (box_top b) (box_bottom b))"

text \<open>The four edges of the box are in the range of \<open>int\<close>.\<close>

definition box_in_range :: "Entity \<Rightarrow> bool" where
  "box_in_range e =
     (in_int (box_left e) \<and> in_int (box_top e) \<and> in_int (box_right e) \<and> in_int (box_bottom e))"

text \<open>An entity with one view, placed so that its box is \<open>[l, l + w) \<times> [t, t + h)\<close>.\<close>

definition box_entity :: "int \<Rightarrow> int \<Rightarrow> int \<Rightarrow> int \<Rightarrow> Entity" where
  "box_entity l t w h =
     \<lparr>pos_x = l, pos_y = t, num_views = 1, current_view = 0,
      views = \<lparr>origin_x = 0, origin_y = 0, width = w, height = h,
                display_size = 1, display = [CHR 0x00]\<rparr> # replicate 9 zero_view,
      visible = True\<rparr>"

section \<open>Entities and their views\<close>

text \<open>\<open>create_entity\<close> (main.c 452-456): \<open>struct Entity result = {}\<close>, then visible.\<close>

definition create_entity :: Entity where
  "create_entity =
     \<lparr>pos_x = 0, pos_y = 0, num_views = 0, current_view = 0,
      views = replicate VIEWS_BOUND zero_view, visible = True\<rparr>"

text \<open>
  \<open>add_entity_view_from_file\<close> (main.c 464-527) calls the C library for everything
  it reads. What the library answers for a file name is the parameter \<open>load\<close>:
  whether \<open>fopen\<close> returns a file, the number \<open>fscanf\<close> returns and the four
  numbers it stores, the character \<open>c\<close> after each pass \<open>fseek(file, -2, SEEK_CUR);
  c = fgetc(file)\<close> of the first loop, the character \<open>c\<close> after each
  \<open>c = fgetc(file)\<close> of the second loop, and whether \<open>realloc\<close> returns a block of
  a given size.
\<close>

record asset_io =
  io_open :: bool
  io_num :: int
  io_width :: int
  io_height :: int
  io_origin_x :: int
  io_origin_y :: int
  io_back :: "nat \<Rightarrow> char"
  io_body :: "nat \<Rightarrow> char"
  io_alloc :: "nat \<Rightarrow> bool"

text \<open>
  The first loop (main.c 490-493) seeks back until it has read a newline or a carriage
  return; \<open>prev n\<close> is the character read in pass \<open>n\<close>. Nothing bounds it: on a file where no such
  character is found it never returns, which is the value \<open>None\<close>.
\<close>

partial_function (option) seek_back :: "(nat \<Rightarrow> char) \<Rightarrow> nat \<Rightarrow> char option" where
  "seek_back prev n =
     (if prev n = CHR 0x0A \<or> prev n = CHR 0x0D then Some (prev n)
      else seek_back prev (Suc n))"

text \<open>
  \<open>if (c == EOF) c = 0\<close> on a \<open>char\<close>: with the signed \<open>char\<close> of the platform
  the test holds for the byte \<open>0xFF\<close>, which is also what \<open>fgetc\<close> leaves in \<open>c\<close>
  at the end of the file.
\<close>

definition eof_to_nul :: "char \<Rightarrow> char" where
  "eof_to_nul c = (if c = CHR 0xFF then CHR 0x00 else c)"

text \<open>
  The second loop (main.c 495-515) appends one character per pass, growing the buffer
  by one byte first, and stops after it has stored a 0. \<open>Inl msg\<close> is the exit on a
  failed \<open>realloc\<close>, \<open>Inr display\<close> the buffer read.
\<close>

partial_function (option) read_body ::
    "(nat \<Rightarrow> char) \<Rightarrow> (nat \<Rightarrow> bool) \<Rightarrow> nat \<Rightarrow> char list \<Rightarrow> (string + char list) option" where
  "read_body body alloc n disp =
     (if alloc (Suc (length disp)) then
        (if eof_to_nul (body n) = CHR 0x00 then Some (Inr (disp @ [CHR 0x00]))
         else read_body body alloc (Suc n) (disp @ [eof_to_nul (body n)]))
      else Some (Inl (''Error allocating memory for entity view display'' @ [CHR 0x0A])))"

text \<open>
  How a call that returns control ends: \<open>Exited msg\<close> is \<open>printf(msg); exit(1)\<close>,
  \<open>Undefined\<close> is undefined behaviour (a store outside the array), \<open>Returned v\<close> is
  a normal return. A call that never ends has no outcome (\<open>None\<close>).
\<close>

datatype 'a outcome = Exited string | Undefined | Returned 'a

definition is_fatal :: "'a outcome option \<Rightarrow> bool" where
  "is_fatal r =
     (case r of
        None \<Rightarrow> False
      | Some (Exited msg) \<Rightarrow> True
      | Some Undefined \<Rightarrow> False
      | Some (Returned v) \<Rightarrow> False)"

text \<open>
  \<open>add_entity_view_from_file\<close> (main.c 464-527). The only exits are the three
  \<open>exit(1)\<close> of the source; the store \<open>entity->views[entity->num_views] = view\<close> has
  no test in front of it. The line printed on success is not part of the result.
\<close>

definition add_entity_view_from_file ::
  "(string \<Rightarrow> asset_io) \<Rightarrow> Entity \<Rightarrow> string \<Rightarrow> Entity outcome option" where
  "add_entity_view_from_file load entity filename =
     (if \<not> io_open (load filename) then
        Some (Exited (''Error opening file '' @ [CHR 0x27] @ filename @ [CHR 0x27]))
      else if io_num (load filename) \<noteq> 4 then
        Some (Exited (''Error parsing entity file '' @ [CHR 0x27] @ filename @
                      [CHR 0x27, CHR 0x0A]))
      else
        (case seek_back (io_back (load filename)) 0 of
           None \<Rightarrow> None
         | Some c \<Rightarrow>
             (case read_body (io_body (load filename)) (io_alloc (load filename)) 0 [] of
                None \<Rightarrow> None
              | Some (Inl msg) \<Rightarrow> Some (Exited msg)
              | Some (Inr disp) \<Rightarrow>
                  (if num_views entity < VIEWS_BOUND then
                     Some (Returned (entity
                       \<lparr>views := (views entity)
                          [num_views entity :=
                             \<lparr>origin_x = io_origin_x (load filename),
                              origin_y = io_origin_y (load filename),
                              width = io_width (load filename),
                              height = io_height (load filename),
                              display_size = length disp, display = disp\<rparr>],
                        num_views := num_views entity + 1\<rparr>))
                   else Some Undefined))))"

text \<open>
  \<open>next_entity_view\<close> (main.c 533-535), on \<open>unsigned int\<close>: the sum wraps at
  \<open>2 ^ 32\<close>, and the remainder by zero views is undefined.
\<close>

definition next_entity_view :: "Entity \<Rightarrow> Entity option" where
  "next_entity_view entity =
     (if num_views entity = 0 then None
      else Some (entity\<lparr>current_view :=
                   ((current_view entity + 1) mod 2 ^ 32) mod num_views entity\<rparr>))"

text \<open>
  The invariant of the specification: the current-view index is below the number of
  views whenever there is a view.
\<close>

definition entity_inv :: "Entity \<Rightarrow> bool" where
  "entity_inv e = (num_views e = 0 \<or> current_view e < num_views e)"

text \<open>The same, and the index is 0 while there is no view (as \<open>create_entity\<close> leaves it).\<close>

definition entity_inv_strong :: "Entity \<Rightarrow> bool" where
  "entity_inv_strong e =
     (if num_views e = 0 then current_view e = 0 else current_view e < num_views e)"

section \<open>Obstacles, score counter, game state\<close>

record Obstacle =
  obs_x :: int
  obs_y :: int
  gap_size :: int
  top_entity :: Entity
  bottom_entity :: Entity
  score_collected :: bool

text \<open>
  The bird's velocity is a C \<open>float\<close>. No operation modelled here reads or writes it,
  so its type is left as a parameter.
\<close>

record 'f Bird =
  entity :: Entity
  velocity :: 'f

record ScoreCounter =
  digits :: "Entity list"
  sc_score :: int
  sc_x :: int
  sc_y :: int

datatype ScreenType = TITLE_SCREEN | GAME_SCREEN

text \<open>
  \<open>struct Entity *entities[25]\<close> holds pointers into the game state itself. A pointer
  is the path of the entity it points to, so that rendering sees every later change
  of that entity; \<open>Ptr_null\<close> is the content of a slot never registered.
\<close>

datatype entity_ptr =
    Ptr_null
  | Ptr_title_text
  | Ptr_press_space_to_start
  | Ptr_bird
  | Ptr_top nat
  | Ptr_bottom nat
  | Ptr_digit nat

record 'f GameState =
  bird :: "'f Bird"
  entity_count :: nat
  entities :: "entity_ptr list"
  obstacle_count :: nat
  obstacles :: "Obstacle list"
  press_space_to_start :: Entity
  screen_type :: ScreenType
  title_text :: Entity
  score :: int
  score_counter :: ScoreCounter
  quit :: bool

definition deref :: "'f GameState \<Rightarrow> entity_ptr \<Rightarrow> Entity option" where
  "deref gs p =
     (case p of
        Ptr_null \<Rightarrow> None
      | Ptr_title_text \<Rightarrow> Some (title_text gs)
      | Ptr_press_space_to_start \<Rightarrow> Some (press_space_to_start gs)
      | Ptr_bird \<Rightarrow> Some (entity (bird gs))
      | Ptr_top i \<Rightarrow> (if i < ARRAY_BOUND then Some (top_entity (obstacles gs ! i)) else None)
      | Ptr_bottom i \<Rightarrow>
          (if i < ARRAY_BOUND then Some (bottom_entity (obstacles gs ! i)) else None)
      | Ptr_digit i \<Rightarrow>
          (if i < SCORE_COUNTER_DIGITS then Some (digits (score_counter gs) ! i) else None))"

text \<open>\<open>update_obstacle\<close> (main.c 596-602).\<close>

definition update_obstacle :: "Obstacle \<Rightarrow> Obstacle" where
  "update_obstacle obstacle =
     obstacle\<lparr>top_entity := (top_entity obstacle)
                  \<lparr>pos_x := obs_x obstacle, pos_y := obs_y obstacle - gap_size obstacle\<rparr>,
               bottom_entity := (bottom_entity obstacle)
                  \<lparr>pos_x := obs_x obstacle, pos_y := obs_y obstacle + gap_size obstacle\<rparr>\<rparr>"

section \<open>Score counter\<close>

text \<open>
  \<open>update_score_counter\<close> (main.c 828-848). The \<open>while\<close> loop writes
  \<open>digits[digit_number]\<close>, an array of \<open>SCORE_COUNTER_DIGITS\<close> entities, with no
  bound on \<open>digit_number\<close>; the local \<open>score\<close> is \<open>sc\<close> here, and for a
  positive value C's \<open>%\<close> and \<open>/\<close> are \<open>mod\<close> and \<open>div\<close>.
\<close>

function score_digits_loop :: "int \<Rightarrow> nat \<Rightarrow> Entity list \<Rightarrow> (nat \<times> Entity list) option" where
  "score_digits_loop sc digit_number ds =
     (if sc > 0 then
        (if digit_number < SCORE_COUNTER_DIGITS then
           score_digits_loop (sc div 10) (Suc digit_number)
             (ds[digit_number := (ds ! digit_number)
                   \<lparr>current_view := nat (sc mod 10), visible := True\<rparr>])
         else None)
      else Some (digit_number, ds))"
  by pat_completeness auto
termination
  by (relation "measure (\<lambda>(sc, digit_number, ds). nat sc)") auto

definition hide_digit :: "nat \<Rightarrow> Entity list \<Rightarrow> Entity list" where
  "hide_digit i ds = ds[i := (ds ! i)\<lparr>visible := False\<rparr>]"

definition update_score_counter :: "'f GameState \<Rightarrow> 'f GameState option" where
  "update_score_counter gs =
     (case score_digits_loop (score gs) 0 (digits (score_counter gs)) of
        None \<Rightarrow> None
      | Some (digit_number, ds) \<Rightarrow>
          Some (gs\<lparr>score_counter := (score_counter gs)
                  \<lparr>digits := fold hide_digit [digit_number..<SCORE_COUNTER_DIGITS] ds\<rparr>\<rparr>))"

text \<open>The number of decimal digits of a score, none for 0.\<close>

function num_digits :: "int \<Rightarrow> nat" where
  "num_digits s = (if s > 0 then Suc (num_digits (s div 10)) else 0)"
  by pat_completeness auto
termination
  by (relation "measure nat") auto

text \<open>What the loop does to the entity of decimal place \<open>j\<close> of the score \<open>s\<close>.\<close>

definition set_digit :: "int \<Rightarrow> nat \<Rightarrow> Entity \<Rightarrow> Entity" where
  "set_digit s j d = d\<lparr>current_view := nat ((s div 10 ^ j) mod 10), visible := True\<rparr>"

section \<open>Frame renderer\<close>

text \<open>
  A frame is \<open>char frame[SCREEN_WIDTH][SCREEN_HEIGHT]\<close>: a list of \<open>SCREEN_WIDTH\<close>
  columns, each a list of \<open>SCREEN_HEIGHT\<close> characters; \<open>frame ! x ! y\<close> is
  \<open>frame[x][y]\<close>.
\<close>

type_synonym frame = "char list list"

definition frame_ok :: "frame \<Rightarrow> bool" where
  "frame_ok f = (length f = SCREEN_WIDTH \<and> list_all (\<lambda>col. length col = SCREEN_HEIGHT) f)"

definition set_cell :: "frame \<Rightarrow> nat \<Rightarrow> nat \<Rightarrow> char \<Rightarrow> frame" where
  "set_cell f cx cy c = f[cx := (f ! cx)[cy := c]]"

text \<open>The frame after \<open>memset(frame, ' ', sizeof(frame))\<close>.\<close>

definition blank_frame :: frame where
  "blank_frame = replicate SCREEN_WIDTH (replicate SCREEN_HEIGHT CHR '' '')"

record DisplayState =
  current_frame :: frame
  next_frame :: frame
  last_frame_time :: int

text \<open>
  The loop of \<open>render_entity\<close> (main.c 432-445) over the characters
  \<open>display[0 .. display_size - 2]\<close>: a newline or carriage return starts the next row,
  any other character is stored if the cursor is on the screen.
\<close>

fun render_chars :: "int \<Rightarrow> char list \<Rightarrow> int \<Rightarrow> int \<Rightarrow> frame \<Rightarrow> frame" where
  "render_chars start_x [] current_x current_y f = f"
| "render_chars start_x (c # cs) current_x current_y f =
     (if c = CHR 0x0A \<or> c = CHR 0x0D then render_chars start_x cs start_x (current_y + 1) f
      else render_chars start_x cs (current_x + 1) current_y
             (if current_x \<ge> 0 \<and> current_x < int SCREEN_WIDTH \<and>
                 current_y \<ge> 0 \<and> current_y < int SCREEN_HEIGHT
              then set_cell f (nat current_x) (nat current_y) c
              else f))"

text \<open>
  \<open>render_entity\<close> (main.c 416-446). \<open>display\<close> is the buffer of \<open>display_size\<close>
  bytes; the loop bound \<open>display_size - 1\<close> is computed in \<open>size_t\<close>, so a view with
  \<open>display_size = 0\<close> (a slot never loaded) makes the loop read outside the buffer.
\<close>

definition render_entity :: "Entity \<Rightarrow> frame \<Rightarrow> frame option" where
  "render_entity e f =
     (if \<not> visible e then Some f
      else if current_view e < VIEWS_BOUND then
        (let view = views e ! current_view e;
             start_x = pos_x e - origin_x view;
             start_y = pos_y e - origin_y view
         in if 0 < display_size view \<and> display_size view - 1 \<le> length (display view)
            then Some (render_chars start_x (take (display_size view - 1) (display view))
                         start_x start_y f)
            else None)
      else None)"

text \<open>The loop over the registered entities (main.c 373-376), \<open>i\<close> running over \<open>is\<close>.\<close>

fun render_loop :: "'f GameState \<Rightarrow> nat list \<Rightarrow> frame \<Rightarrow> frame option" where
  "render_loop gs [] f = Some f"
| "render_loop gs (i # is) f =
     (if i < ARRAY_BOUND then
        (case deref gs (entities gs ! i) of
           None \<Rightarrow> None
         | Some e \<Rightarrow>
             (case render_entity e f of
                None \<Rightarrow> None
              | Some f' \<Rightarrow> render_loop gs is f'))
      else None)"

text \<open>The two border loops (main.c 382-389).\<close>

definition draw_border :: "frame \<Rightarrow> frame" where
  "draw_border f =
     fold (\<lambda>cy g. set_cell (set_cell g 0 cy CHR ''|'') (SCREEN_WIDTH - 1) cy CHR ''|'')
       [0..<SCREEN_HEIGHT]
       (fold (\<lambda>cx g. set_cell (set_cell g cx 0 CHR ''='') cx (SCREEN_HEIGHT - 1) CHR ''='')
          [0..<SCREEN_WIDTH] f)"

text \<open>\<open>render_next_frame\<close> (main.c 368-390).\<close>

definition render_next_frame :: "DisplayState \<Rightarrow> 'f GameState \<Rightarrow> DisplayState option" where
  "render_next_frame ds gs =
     (case render_loop gs [0..<entity_count gs] blank_frame of
        None \<Rightarrow> None
      | Some f \<Rightarrow> Some (ds\<lparr>next_frame := draw_border f\<rparr>))"

section \<open>Display driver\<close>

text \<open>
  A terminal write is \<open>set_cursor(x, y); printf("%c", c)\<close>, recorded as \<open>(x, y, c)\<close>.
  \<open>flush_cell\<close> is the body of the inner loop of \<open>update_display\<close> (main.c 401-405).
\<close>

type_synonym terminal_write = "nat \<times> nat \<times> char"

fun flush_cell :: "frame \<Rightarrow> nat \<Rightarrow> nat \<Rightarrow> frame \<times> terminal_write list \<Rightarrow>
    frame \<times> terminal_write list" where
  "flush_cell nxt cy cx (cur, out) =
     (if cur ! cx ! cy \<noteq> nxt ! cx ! cy
      then (set_cell cur cx cy (nxt ! cx ! cy), out @ [(cx, cy, nxt ! cx ! cy)])
      else (cur, out))"

text \<open>
  \<open>update_display\<close> (main.c 396-409); \<open>now\<close> is what \<open>millis()\<close> returns. The
  result is the new display state and the terminal writes, in the order issued.
\<close>

definition update_display :: "DisplayState \<Rightarrow> int \<Rightarrow> DisplayState \<times> terminal_write list" where
  "update_display ds now =
     (case fold (\<lambda>cy. fold (flush_cell (next_frame ds) cy) [0..<SCREEN_WIDTH])
             [0..<SCREEN_HEIGHT] (current_frame ds, []) of
        (cur, out) \<Rightarrow> (ds\<lparr>current_frame := cur, last_frame_time := now\<rparr>, out))"

text \<open>The cells where two frames differ.\<close>

definition differing_cells :: "frame \<Rightarrow> frame \<Rightarrow> (nat \<times> nat) set" where
  "differing_cells cur nxt =
     {(cx, cy). cx < SCREEN_WIDTH \<and> cy < SCREEN_HEIGHT \<and> cur ! cx ! cy \<noteq> nxt ! cx ! cy}"

section \<open>Periodic timers\<close>

text \<open>
  The callback is a function on the state it is given. \<open>millis()\<close> reads a clock: the
  sequence \<open>clk\<close> of the values it returns, and the number \<open>k\<close> of readings so far.
\<close>

record 's PeriodicTimer =
  period :: int
  last_trigger_time :: int
  callback :: "'s \<Rightarrow> 's"

text \<open>
  The loop of \<open>run_periodic_timers\<close> (main.c 723-728). The state is the game state,
  the timer array, the number of clock readings, and the indices of the timers whose
  callback was invoked, in order.
\<close>

fun timers_loop :: "(nat \<Rightarrow> int) \<Rightarrow> nat list \<Rightarrow>
    's \<times> 's PeriodicTimer list \<times> nat \<times> nat list \<Rightarrow>
    ('s \<times> 's PeriodicTimer list \<times> nat \<times> nat list) option" where
  "timers_loop clk [] st = Some st"
| "timers_loop clk (i # is) (gs, ts, k, fired) =
     (if i < length ts then
        (if clk k - last_trigger_time (ts ! i) > period (ts ! i)
         then timers_loop clk is
                (callback (ts ! i) gs,
                 ts[i := (ts ! i)\<lparr>last_trigger_time := clk (Suc k)\<rparr>],
                 Suc (Suc k), fired @ [i])
         else timers_loop clk is (gs, ts, Suc k, fired))
      else None)"

definition run_periodic_timers :: "'s \<Rightarrow> 's PeriodicTimer list \<Rightarrow> nat \<Rightarrow> (nat \<Rightarrow> int) \<Rightarrow> nat \<Rightarrow>
    ('s \<times> 's PeriodicTimer list \<times> nat \<times> nat list) option" where
  "run_periodic_timers gs periodic_timers periodic_timer_count clk k =
     timers_loop clk [0..<periodic_timer_count] (gs, periodic_timers, k, [])"

section \<open>Game functions\<close>

text \<open>
  \<open>rand()\<close> is the sequence \<open>r\<close> of the values it returns and the number \<open>k\<close> of
  calls so far. \<open>random_center\<close> is
  \<open>(rand() % (SCREEN_HEIGHT - SCREEN_HEIGHT / 2)) + SCREEN_HEIGHT / 4\<close>.
\<close>

definition random_center :: "nat \<Rightarrow> int" where
  "random_center v =
     int (v mod (SCREEN_HEIGHT - SCREEN_HEIGHT div 2)) + int (SCREEN_HEIGHT div 4)"

text \<open>
  The body of the loop of \<open>scroll_world\<close> (main.c 612-629) for obstacle \<open>i\<close> is
  \<open>scroll_step\<close>, in three steps: move and score (\<open>scroll_score\<close>), recycle
  (\<open>recycle\<close>), reposition the parts (\<open>update_obstacle\<close>).
\<close>

definition scroll_score :: "nat \<Rightarrow> 'f GameState \<Rightarrow> 'f GameState option" where
  "scroll_score i gs =
     (let gs1 = gs\<lparr>obstacles := (obstacles gs)
                  [i := (obstacles gs ! i)\<lparr>obs_x := obs_x (obstacles gs ! i) - 1\<rparr>]\<rparr>
      in if screen_type gs1 = GAME_SCREEN \<and>
            obs_x (obstacles gs1 ! i) < pos_x (entity (bird gs1)) \<and>
            \<not> score_collected (obstacles gs1 ! i)
         then (case update_score_counter (gs1\<lparr>score := score gs1 + 1\<rparr>) of
                 None \<Rightarrow> None
               | Some gs2 \<Rightarrow>
                   Some (gs2\<lparr>obstacles := (obstacles gs2)
                           [i := (obstacles gs2 ! i)\<lparr>score_collected := True\<rparr>]\<rparr>))
         else Some gs1)"

definition recycle :: "(nat \<Rightarrow> nat) \<Rightarrow> nat \<Rightarrow> Obstacle \<Rightarrow> Obstacle \<times> nat" where
  "recycle r k ob =
     (if obs_x ob < - width (views (top_entity ob) ! 0)
      then (ob\<lparr>obs_x := int SCREEN_WIDTH, obs_y := random_center (r k),
                score_collected := False\<rparr>, Suc k)
      else (ob, k))"

definition scroll_step :: "(nat \<Rightarrow> nat) \<Rightarrow> nat \<Rightarrow> 'f GameState \<times> nat \<Rightarrow>
    ('f GameState \<times> nat) option" where
  "scroll_step r i st =
     (case st of (gs, k) \<Rightarrow>
        (case scroll_score i gs of
           None \<Rightarrow> None
         | Some gs3 \<Rightarrow>
             (case recycle r k (obstacles gs3 ! i) of
                (ob, k') \<Rightarrow>
                  Some (gs3\<lparr>obstacles := (obstacles gs3)[i := update_obstacle ob]\<rparr>, k'))))"

fun scroll_loop :: "(nat \<Rightarrow> nat) \<Rightarrow> nat list \<Rightarrow> 'f GameState \<times> nat \<Rightarrow>
    ('f GameState \<times> nat) option" where
  "scroll_loop r [] st = Some st"
| "scroll_loop r (i # is) st =
     (if i < ARRAY_BOUND then
        (case scroll_step r i st of
           None \<Rightarrow> None
         | Some st' \<Rightarrow> scroll_loop r is st')
      else None)"

text \<open>The scrolling of the "press space to start" text (main.c 632-638).\<close>

definition scroll_title :: "'f GameState \<Rightarrow> 'f GameState" where
  "scroll_title gs =
     (if screen_type gs = TITLE_SCREEN then
        (let p = press_space_to_start gs; p1 = p\<lparr>pos_x := pos_x p + 1\<rparr>
         in gs\<lparr>press_space_to_start :=
                 (if pos_x p1 > int SCREEN_WIDTH
                  then p1\<lparr>pos_x := 0 - width (views p1 ! 0)\<rparr> else p1)\<rparr>)
      else gs)"

text \<open>\<open>scroll_world\<close> (main.c 609-639).\<close>

definition scroll_world :: "(nat \<Rightarrow> nat) \<Rightarrow> 'f GameState \<times> nat \<Rightarrow> ('f GameState \<times> nat) option" where
  "scroll_world r st =
     (case scroll_loop r [0..<obstacle_count (fst st)] st of
        None \<Rightarrow> None
      | Some (gs, k) \<Rightarrow> Some (scroll_title gs, k))"

text \<open>
  The loop of \<open>start_game\<close> (main.c 750-755). \<open>i * SCREEN_WIDTH / obstacle_count\<close>
  is an unsigned division; the loop runs only when \<open>obstacle_count\<close> is not 0.
\<close>

fun start_loop :: "(nat \<Rightarrow> nat) \<Rightarrow> nat list \<Rightarrow> 'f GameState \<times> nat \<Rightarrow>
    ('f GameState \<times> nat) option" where
  "start_loop r [] st = Some st"
| "start_loop r (i # is) (gs, k) =
     (if i < ARRAY_BOUND then
        start_loop r is
          (gs\<lparr>obstacles := (obstacles gs)
                [i := update_obstacle ((obstacles gs ! i)
                        \<lparr>obs_x := int (SCREEN_WIDTH div 4) +
                                   int (i * SCREEN_WIDTH div obstacle_count gs),
                         obs_y := random_center (r k),
                         score_collected := False\<rparr>)]\<rparr>, Suc k)
      else None)"

text \<open>\<open>start_game\<close> (main.c 735-756).\<close>

definition start_game :: "(nat \<Rightarrow> nat) \<Rightarrow> 'f GameState \<times> nat \<Rightarrow> ('f GameState \<times> nat) option" where
  "start_game r st =
     (case st of (gs, k) \<Rightarrow>
        (case update_score_counter
                (gs\<lparr>screen_type := GAME_SCREEN,
                    press_space_to_start := (press_space_to_start gs)\<lparr>visible := False\<rparr>,
                    title_text := (title_text gs)\<lparr>visible := False\<rparr>,
                    bird := (bird gs)\<lparr>entity := (entity (bird gs))
                              \<lparr>pos_x := 10, pos_y := int (SCREEN_HEIGHT div 2)\<rparr>\<rparr>,
                    score := 0\<rparr>) of
           None \<Rightarrow> None
         | Some gs1 \<Rightarrow> start_loop r [0..<obstacle_count gs1] (gs1, k)))"

text \<open>\<open>end_game\<close> (main.c 792-798); the window title it prints is not part of the state.\<close>

definition end_game :: "'f GameState \<Rightarrow> 'f GameState" where
  "end_game gs =
     gs\<lparr>screen_type := TITLE_SCREEN,
        score := 0,
        title_text := (title_text gs)\<lparr>visible := True\<rparr>,
        press_space_to_start := (press_space_to_start gs)\<lparr>visible := True\<rparr>\<rparr>"

text \<open>
  \<open>end_checks\<close> is the block of \<open>game_tick\<close> for the game screen (main.c 697-711):
  the loop over the obstacles, \<open>||\<close> evaluating its second operand only when the
  first is false, then the test of the screen edges. It is the only part of
  \<open>game_tick\<close> that ends a game. What runs before it in a tick on the game screen
  (the key loop and gravity, main.c 654-679) writes the bird's \<open>x\<close>, velocity and
  active view and \<open>quit\<close>; what runs after it (main.c 713) adds the truncated
  velocity to the bird's \<open>y\<close>.
\<close>

fun collision_loop :: "nat list \<Rightarrow> 'f GameState \<Rightarrow> 'f GameState option" where
  "collision_loop [] gs = Some gs"
| "collision_loop (i # is) gs =
     (if i < ARRAY_BOUND then
        (case check_collision (entity (bird gs)) (top_entity (obstacles gs ! i)) of
           None \<Rightarrow> None
         | Some True \<Rightarrow> collision_loop is (end_game gs)
         | Some False \<Rightarrow>
             (case check_collision (entity (bird gs)) (bottom_entity (obstacles gs ! i)) of
                None \<Rightarrow> None
              | Some True \<Rightarrow> collision_loop is (end_game gs)
              | Some False \<Rightarrow> collision_loop is gs))
      else None)"

definition out_of_screen :: "Entity \<Rightarrow> bool" where
  "out_of_screen e =
     (pos_x e < 0 \<or> pos_x e > int SCREEN_WIDTH \<or> pos_y e < 0 \<or> pos_y e > int SCREEN_HEIGHT)"

definition end_checks :: "'f GameState \<Rightarrow> 'f GameState option" where
  "end_checks gs =
     (if screen_type gs = GAME_SCREEN then
        (case collision_loop [0..<obstacle_count gs] gs of
           None \<Rightarrow> None
         | Some gs1 \<Rightarrow>
             Some (if out_of_screen (entity (bird gs1)) then end_game gs1 else gs1))
      else Some gs)"

section \<open>An example state\<close>

text \<open>
  A state shaped like the one \<open>main\<close> builds: title, prompt, three obstacles, the
  bird and five digits, registered in that order. A loaded view holds its text and the
  terminating 0 byte.
\<close>

definition glyph_view :: "int \<Rightarrow> int \<Rightarrow> string \<Rightarrow> EntityView" where
  "glyph_view w h txt =
     \<lparr>origin_x = 0, origin_y = 0, width = w, height = h,
      display_size = length txt + 1, display = txt @ [CHR 0x00]\<rparr>"

definition digit_entity :: "int \<Rightarrow> Entity" where
  "digit_entity px =
     \<lparr>pos_x = px, pos_y = 1, num_views = 10, current_view = 0,
      views = map (\<lambda>c. glyph_view 1 1 [c]) ''0123456789'', visible = True\<rparr>"

definition example_obstacle :: "int \<Rightarrow> int \<Rightarrow> int \<Rightarrow> Obstacle" where
  "example_obstacle ox oy g =
     update_obstacle
       \<lparr>obs_x = ox, obs_y = oy, gap_size = g,
        top_entity = box_entity 0 0 12 30, bottom_entity = box_entity 0 0 12 30,
        score_collected = False\<rparr>"

definition zero_obstacle :: Obstacle where
  "zero_obstacle =
     \<lparr>obs_x = 0, obs_y = 0, gap_size = 0,
      top_entity = create_entity\<lparr>visible := False\<rparr>,
      bottom_entity = create_entity\<lparr>visible := False\<rparr>,
      score_collected = False\<rparr>"

definition example_state :: "unit GameState" where
  "example_state =
     \<lparr>bird = \<lparr>entity = box_entity 0 0 5 3, velocity = ()\<rparr>,
      entity_count = 14,
      entities =
        [Ptr_title_text, Ptr_press_space_to_start,
         Ptr_top 0, Ptr_bottom 0, Ptr_top 1, Ptr_bottom 1, Ptr_top 2, Ptr_bottom 2,
         Ptr_bird, Ptr_digit 0, Ptr_digit 1, Ptr_digit 2, Ptr_digit 3, Ptr_digit 4]
        @ replicate 11 Ptr_null,
      obstacle_count = 3,
      obstacles =
        [example_obstacle 150 40 8, example_obstacle 240 30 9, example_obstacle 60 50 10]
        @ replicate 22 zero_obstacle,
      press_space_to_start = box_entity (- 20) 70 20 5,
      screen_type = TITLE_SCREEN,
      title_text = box_entity 150 40 60 10,
      score = 0,
      score_counter =
        \<lparr>digits = map (\<lambda>i. digit_entity (291 - 2 * int i)) [0..<5],
         sc_score = 0, sc_x = 291, sc_y = 1\<rparr>,
      quit = False\<rparr>"

text \<open>A display whose next frame differs from the current one in the cell (3, 4).\<close>

definition example_display :: DisplayState where
  "example_display =
     \<lparr>current_frame = blank_frame,
      next_frame = set_cell blank_frame 3 4 CHR ''X'',
      last_frame_time = 0\<rparr>"

text \<open>Three timers with the periods of \<open>main\<close>, on a counter as the state.\<close>

definition example_timers :: "nat PeriodicTimer list" where
  "example_timers =
     [\<lparr>period = 50, last_trigger_time = 0, callback = (\<lambda>n. n + 1)\<rparr>,
      \<lparr>period = 250, last_trigger_time = 0, callback = (\<lambda>n. n + 10)\<rparr>,
      \<lparr>period = 20, last_trigger_time = 0, callback = (\<lambda>n. n + 100)\<rparr>]"

text \<open>A timer is due at the time \<open>now\<close>.\<close>

definition due :: "int \<Rightarrow> 's PeriodicTimer \<Rightarrow> bool" where
  "due now t = (now - last_trigger_time t > period t)"

text \<open>The cells of the screen in the order \<open>update_display\<close> visits them.\<close>

definition scan_cells :: "(nat \<times> nat) list" where
  "scan_cells = concat (map (\<lambda>cy. map (\<lambda>cx. (cx, cy)) [0..<SCREEN_WIDTH]) [0..<SCREEN_HEIGHT])"

text \<open>\<open>flush_cell\<close> on a cell given as a pair.\<close>

definition flush_at :: "frame \<Rightarrow> nat \<times> nat \<Rightarrow> frame \<times> terminal_write list \<Rightarrow>
    frame \<times> terminal_write list" where
  "flush_at nxt p = flush_cell nxt (snd p) (fst p)"

text \<open>Two frames differ at a cell; the write that \<open>update_display\<close> issues for a cell.\<close>

definition differs :: "frame \<Rightarrow> frame \<Rightarrow> nat \<times> nat \<Rightarrow> bool" where
  "differs cur nxt p = (cur ! fst p ! snd p \<noteq> nxt ! fst p ! snd p)"

definition write_of :: "frame \<Rightarrow> nat \<times> nat \<Rightarrow> terminal_write" where
  "write_of nxt p = (fst p, snd p, nxt ! fst p ! snd p)"

text \<open>
  An entity that \<open>render_entity\<close> can draw: hidden, or with an active view inside the
  array whose buffer holds the \<open>display_size - 1\<close> characters the loop reads; and a
  state all of whose registered entities are such.
\<close>

definition renderable :: "Entity \<Rightarrow> bool" where
  "renderable e =
     (\<not> visible e \<or>
      (current_view e < VIEWS_BOUND \<and> 0 < display_size (views e ! current_view e) \<and>
       display_size (views e ! current_view e) - 1 \<le> length (display (views e ! current_view e))))"

definition entities_renderable :: "'f GameState \<Rightarrow> bool" where
  "entities_renderable gs =
     (entity_count gs \<le> ARRAY_BOUND \<and>
      list_all (\<lambda>i. case deref gs (entities gs ! i) of None \<Rightarrow> False | Some e \<Rightarrow> renderable e)
        [0..<entity_count gs])"

text \<open>
  The obstacle \<open>ob'\<close> is \<open>ob\<close> recycled with the vertical centre \<open>cy\<close>: at the right
  edge, flag cleared, same gap, parts repositioned.
\<close>

definition recycled :: "Obstacle \<Rightarrow> Obstacle \<Rightarrow> int \<Rightarrow> bool" where
  "recycled ob ob' cy =
     (obs_x ob' = int SCREEN_WIDTH \<and> obs_y ob' = cy \<and> \<not> score_collected ob' \<and>
      gap_size ob' = gap_size ob \<and>
      pos_x (top_entity ob') = obs_x ob' \<and> pos_y (top_entity ob') = obs_y ob' - gap_size ob' \<and>
      pos_x (bottom_entity ob') = obs_x ob' \<and>
      pos_y (bottom_entity ob') = obs_y ob' + gap_size ob')"

text \<open>
  The sums and differences that one tick of \<open>scroll_world\<close> computes on an obstacle
  stay in the range of \<open>int\<close>: \<open>x - 1\<close>, the negated width, \<open>y - gap\<close> and
  \<open>y + gap\<close> for the present centre and for every centre of the band.
\<close>

definition obstacle_in_range :: "Obstacle \<Rightarrow> bool" where
  "obstacle_in_range ob =
     (in_int (obs_x ob - 1) \<and> in_int (- width (views (top_entity ob) ! 0)) \<and>
      in_int (obs_y ob - gap_size ob) \<and> in_int (obs_y ob + gap_size ob) \<and>
      in_int (gap_size ob - 60) \<and> in_int (gap_size ob + 60))"

text \<open>
  No \<open>int\<close> computed by one tick of \<open>scroll_world\<close> overflows: the obstacles, the
  score (incremented at most once per obstacle) and the position of the scrolling text.
\<close>

definition scroll_in_range :: "'f GameState \<Rightarrow> bool" where
  "scroll_in_range gs =
     (in_int (score gs) \<and> in_int (score gs + int (obstacle_count gs)) \<and>
      in_int (pos_x (press_space_to_start gs) + 1) \<and>
      in_int (- width (views (press_space_to_start gs) ! 0)) \<and>
      list_all (\<lambda>j. obstacle_in_range (obstacles gs ! j)) [0..<obstacle_count gs])"

text \<open>
  How many of the values \<open>0, ..., N - 1\<close> of \<open>rand()\<close> give the centre \<open>c\<close>. When
  \<open>rand()\<close> takes each of its \<open>N = RAND_MAX + 1\<close> values equally often, the centre \<open>c\<close>
  is drawn with probability \<open>center_count N c / N\<close>.
\<close>

definition center_count :: "nat \<Rightarrow> int \<Rightarrow> nat" where
  "center_count N c = length (filter (\<lambda>v. random_center v = c) [0..<N])"

text \<open>The obstacle is off the left edge once it has moved one cell to the left.\<close>

definition off_left :: "Obstacle \<Rightarrow> bool" where
  "off_left ob = (obs_x ob - 1 < - width (views (top_entity ob) ! 0))"

text \<open>The example state with its first obstacle at \<open>x = -(12 + 1)\<close>, its parts being 12 wide.\<close>

definition example_recycle_state :: "unit GameState" where
  "example_recycle_state =
     example_state\<lparr>obstacles := (obstacles example_state)[0 := example_obstacle (- 13) 40 8]\<rparr>"

text \<open>
  The score counter can take \<open>n\<close> more points: nothing is scored on the title screen,
  and on the game screen the score stays below \<open>10 ^ 5\<close> on a counter of five digits.
\<close>

definition can_score :: "'f GameState \<Rightarrow> nat \<Rightarrow> bool" where
  "can_score gs n =
     (screen_type gs = TITLE_SCREEN \<or>
      (score gs + int n < 10 ^ 5 \<and>
       length (digits (score_counter gs)) = SCORE_COUNTER_DIGITS))"

text \<open>
  The obstacle \<open>ob'\<close> is \<open>ob\<close> placed at \<open>cx\<close> with the vertical centre \<open>cy\<close>: flag
  cleared, same gap, parts repositioned.
\<close>

definition placed :: "Obstacle \<Rightarrow> Obstacle \<Rightarrow> int \<Rightarrow> int \<Rightarrow> bool" where
  "placed ob ob' cx cy =
     (obs_x ob' = cx \<and> obs_y ob' = cy \<and> \<not> score_collected ob' \<and>
      gap_size ob' = gap_size ob \<and>
      pos_x (top_entity ob') = cx \<and> pos_y (top_entity ob') = cy - gap_size ob \<and>
      pos_x (bottom_entity ob') = cx \<and> pos_y (bottom_entity ob') = cy + gap_size ob)"

text \<open>The \<open>x\<close> that \<open>start_game\<close> gives obstacle \<open>i\<close>.\<close>

definition start_x :: "'f GameState \<Rightarrow> nat \<Rightarrow> int" where
  "start_x gs i = int (SCREEN_WIDTH div 4) + int (i * SCREEN_WIDTH div obstacle_count gs)"

text \<open>The bird collides with the top or the bottom part of obstacle \<open>i\<close>.\<close>

definition hit :: "'f GameState \<Rightarrow> nat \<Rightarrow> bool" where
  "hit gs i =
     (check_collision (entity (bird gs)) (top_entity (obstacles gs ! i)) = Some True \<or>
      check_collision (entity (bird gs)) (bottom_entity (obstacles gs ! i)) = Some True)"

text \<open>
  The active views of the bird and of the parts of every obstacle in use are inside
  their arrays, so that every \<open>check_collision\<close> of \<open>game_tick\<close> is defined.
\<close>

definition parts_readable :: "'f GameState \<Rightarrow> bool" where
  "parts_readable gs =
     (obstacle_count gs \<le> ARRAY_BOUND \<and>
      current_view (entity (bird gs)) < VIEWS_BOUND \<and>
      list_all (\<lambda>i. current_view (top_entity (obstacles gs ! i)) < VIEWS_BOUND \<and>
                    current_view (bottom_entity (obstacles gs ! i)) < VIEWS_BOUND)
        [0..<obstacle_count gs])"

text \<open>
  An obstacle shaped like a pair of pipes, 12 wide and 30 high: the top part has its
  origin at its lower left corner and hangs above \<open>y - gap\<close>, the bottom part has its
  origin at its upper left corner and stands below \<open>y + gap\<close>.
\<close>

definition example_pipe :: "int \<Rightarrow> int \<Rightarrow> int \<Rightarrow> Obstacle" where
  "example_pipe ox oy g =
     update_obstacle
       \<lparr>obs_x = ox, obs_y = oy, gap_size = g,
        top_entity =
          \<lparr>pos_x = 0, pos_y = 0, num_views = 1, current_view = 0,
           views = \<lparr>origin_x = 0, origin_y = 30, width = 12, height = 30,
                     display_size = 1, display = [CHR 0x00]\<rparr> # replicate 9 zero_view,
           visible = True\<rparr>,
        bottom_entity = box_entity 0 0 12 30,
        score_collected = False\<rparr>"

text \<open>
  The example state during a game with the score 7, obstacle 0 being the pipes at
  \<open>x = 150\<close> around the gap \<open>[32, 48)\<close> (top part \<open>[150, 162) \<times> [2, 32)\<close>, bottom part
  \<open>[150, 162) \<times> [48, 78)\<close>), and the bird, 5 wide and 3 high, at \<open>(px, py)\<close>.
\<close>

definition example_playing_state :: "int \<Rightarrow> int \<Rightarrow> unit GameState" where
  "example_playing_state px py =
     example_state\<lparr>screen_type := GAME_SCREEN, score := 7,
                    obstacles := (obstacles example_state)[0 := example_pipe 150 40 8],
                    bird := \<lparr>entity = box_entity px py 5 3, velocity = ()\<rparr>\<rparr>"

section \<open>Example assets and reachable entities\<close>

text \<open>
  The view that \<open>add_entity_view_from_file\<close> stores for a file whose body was read as
  \<open>disp\<close>.
\<close>

definition stored_view :: "asset_io \<Rightarrow> char list \<Rightarrow> EntityView" where
  "stored_view io disp =
     \<lparr>origin_x = io_origin_x io, origin_y = io_origin_y io,
      width = io_width io, height = io_height io,
      display_size = length disp, display = disp\<rparr>"

text \<open>
  An asset file of one glyph: it opens, its header gives four numbers (a 1 by 1 view at
  origin 0, 0), the seek-back loop finds the newline in its third pass, the body is the
  character \<open>#\<close> followed by the end of the file, and every allocation succeeds.
\<close>

definition example_io :: asset_io where
  "example_io =
     \<lparr>io_open = True, io_num = 4, io_width = 1, io_height = 1,
      io_origin_x = 0, io_origin_y = 0,
      io_back = (\<lambda>n. if n < 2 then CHR ''0'' else CHR 0x0A),
      io_body = (\<lambda>n. if n = 0 then CHR ''#'' else CHR 0xFF),
      io_alloc = (\<lambda>n. True)\<rparr>"

text \<open>
  A directory of such files: one that does not open, one whose header gives two numbers,
  one with no newline or carriage return for the seek-back loop to find, one for which
  \<open>realloc\<close> refuses the second byte, and the good one under every other name.
\<close>

definition example_files :: "string \<Rightarrow> asset_io" where
  "example_files fname =
     (if fname = ''missing.entity'' then example_io\<lparr>io_open := False\<rparr>
      else if fname = ''header.entity'' then example_io\<lparr>io_num := 2\<rparr>
      else if fname = ''oneline.entity'' then example_io\<lparr>io_back := (\<lambda>n. CHR ''0'')\<rparr>
      else if fname = ''huge.entity'' then example_io\<lparr>io_alloc := (\<lambda>n. n < 2)\<rparr>
      else example_io)"

text \<open>
  The entities the program can hold. Every write to \<open>num_views\<close>, \<open>current_view\<close> or
  \<open>views\<close> in main.c is in \<open>create_entity\<close> (452-456), \<open>add_entity_view_from_file\<close>
  (521, 524), \<open>next_entity_view\<close> (534) or \<open>update_score_counter\<close> (838); the last
  one writes the digit entities, which \<open>create_score_counter\<close> (809-813) has loaded with
  10 views each, and its result is the body of \<open>update_score_counter\<close> on the digit
  list. All other writes to an entity set its position or its visibility
  (\<open>reach_place\<close>); the zero-initialised entities of \<open>main\<close> are \<open>create_entity\<close>
  made invisible.
\<close>

inductive reach :: "Entity \<Rightarrow> bool" where
  reach_create: "reach create_entity"
| reach_add:
    "reach e \<Longrightarrow> add_entity_view_from_file load e filename = Some (Returned e') \<Longrightarrow> reach e'"
| reach_next: "reach e \<Longrightarrow> next_entity_view e = Some e' \<Longrightarrow> reach e'"
| reach_score:
    "\<forall>d \<in> set ds. reach d \<and> num_views d = 10 \<Longrightarrow>
     score_digits_loop sc 0 ds = Some (n, ds1) \<Longrightarrow>
     d' \<in> set (fold hide_digit [n..<SCORE_COUNTER_DIGITS] ds1) \<Longrightarrow> reach d'"
| reach_place: "reach e \<Longrightarrow> reach (e\<lparr>pos_x := px, pos_y := py, visible := v\<rparr>)"

text \<open>
  The entity after \<open>k\<close> loads of the example glyph into a new entity, and a state whose
  score counter holds five such entities with 10 views each.
\<close>

definition loaded_entity :: "nat \<Rightarrow> Entity" where
  "loaded_entity k =
     create_entity\<lparr>views := replicate k (glyph_view 1 1 ''#'') @
                              replicate (VIEWS_BOUND - k) zero_view,
                    num_views := k\<rparr>"

definition example_counter_state :: "unit GameState" where
  "example_counter_state =
     example_state\<lparr>score := 42,
       score_counter := (score_counter example_state)
         \<lparr>digits := replicate SCORE_COUNTER_DIGITS (loaded_entity 10)\<rparr>\<rparr>"

section \<open>Verification: collision detection\<close>

lemma intervals_meet_iff:
  "intervals_meet l1 r1 l2 r2 \<longleftrightarrow> l1 < r1 \<and> l2 < r2 \<and> l1 < r2 \<and> l2 < r1"
  by (auto simp: intervals_meet_def)

lemma wrap32_id: "in_int v \<Longrightarrow> wrap32 v = v"
  by (simp add: in_int_def wrap32_def)

lemma check_collision_Some:
  assumes "current_view a < VIEWS_BOUND" and "current_view b < VIEWS_BOUND"
    and "box_in_range a" and "box_in_range b"
  shows "check_collision a b =
     Some (((box_left a < box_left b \<and> box_left b < box_right a) \<or>
            (box_left b < box_left a \<and> box_left a < box_right b)) \<and>
           ((box_top a < box_top b \<and> box_top b < box_bottom a) \<or>
            (box_top b < box_top a \<and> box_top a < box_bottom b)))"
proof -
  from assms(3) have a: "wrap32 (pos_x a - origin_x (views a ! current_view a)) = box_left a"
    "wrap32 (pos_y a - origin_y (views a ! current_view a)) = box_top a"
    "wrap32 (box_left a + width (views a ! current_view a)) = box_right a"
    "wrap32 (box_top a + height (views a ! current_view a)) = box_bottom a"
    by (simp_all add: box_in_range_def box_left_def box_top_def box_right_def box_bottom_def
        active_view_def wrap32_id)
  from assms(4) have b: "wrap32 (pos_x b - origin_x (views b ! current_view b)) = box_left b"
    "wrap32 (pos_y b - origin_y (views b ! current_view b)) = box_top b"
    "wrap32 (box_left b + width (views b ! current_view b)) = box_right b"
    "wrap32 (box_top b + height (views b ! current_view b)) = box_bottom b"
    by (simp_all add: box_in_range_def box_left_def box_top_def box_right_def box_bottom_def
        active_view_def wrap32_id)
  show ?thesis
    using assms(1,2) by (simp add: check_collision_def Let_def a b)
qed

lemma check_collision_equal_left:
  assumes "current_view a < VIEWS_BOUND" and "current_view b < VIEWS_BOUND"
    and "box_left a = box_left b"
  shows "check_collision a b = Some False"
proof -
  from assms(3) have "wrap32 (pos_x a - origin_x (views a ! current_view a)) =
      wrap32 (pos_x b - origin_x (views b ! current_view b))"
    by (simp add: box_left_def active_view_def)
  then show ?thesis
    using assms(1,2) by (simp add: check_collision_def Let_def)
qed

lemma has_view_readable:
  "0 < num_views e \<Longrightarrow> entity_inv e \<Longrightarrow> num_views e \<le> VIEWS_BOUND \<Longrightarrow>
   current_view e < VIEWS_BOUND"
  by (auto simp: entity_inv_def)

lemma box_entity_simps:
  "current_view (box_entity l t w h) = 0"
  "box_left (box_entity l t w h) = l"
  "box_top (box_entity l t w h) = t"
  "box_right (box_entity l t w h) = l + w"
  "box_bottom (box_entity l t w h) = t + h"
  "width (active_view (box_entity l t w h)) = w"
  "height (active_view (box_entity l t w h)) = h"
  "box_in_range (box_entity l t w h) =
     (in_int l \<and> in_int t \<and> in_int (l + w) \<and> in_int (t + h))"
  by (simp_all add: box_entity_def box_left_def box_top_def box_right_def box_bottom_def
      active_view_def box_in_range_def)

text \<open>
  Near the end of the range the sum \<open>x1 + w1\<close> wraps: the boxes
  \<open>[2147483640, 2147483650) \<times> [0, 10)\<close> and \<open>[2147483645, 2147483655) \<times> [5, 15)\<close>
  would intersect, and the compiled test reports no collision.
\<close>

lemma check_collision_wraps:
  "check_collision (box_entity 2147483640 0 10 10) (box_entity 2147483645 5 10 10) = Some False"
  by (simp add: check_collision_def Let_def box_entity_def VIEWS_BOUND_def wrap32_def)

text \<open>
  C1, as stated, fails: a box of width and height 0 whose corner lies strictly inside
  the box \<open>[0,10) \<times> [0,10)\<close> collides with it, although the empty box shares no point
  with it.
\<close>

theorem check_collision_zero_size_counterexample:
  "check_collision (box_entity 0 0 10 10) (box_entity 5 5 0 0) = Some True \<and>
   \<not> boxes_overlap (box_entity 0 0 10 10) (box_entity 5 5 0 0)"
  by (simp add: check_collision_Some box_entity_simps VIEWS_BOUND_def boxes_overlap_def
      intervals_meet_iff in_int_def)

text \<open>
  C1 (amended). For two entities whose active view can be read and whose box edges
  are in the range of \<open>int\<close> (no sum of the test overflows): if both boxes have
  positive width and height, and their left edges differ and their top edges differ,
  \<open>check_collision\<close> returns true exactly when the half-open boxes intersect; for boxes
  of positive size a reported collision is always an intersection; two boxes that both
  have no width, or both no height, never collide; a box whose top-left corner lies
  strictly inside the other box collides with it, in either order of the arguments and
  whatever its own size, a width and height of 0 included; and the boxes
  \<open>[0,10) \<times> [0,10)\<close> and \<open>[10,20) \<times> [0,10)\<close> do not collide.
\<close>

theorem check_collision_boxes:
  assumes "current_view a < VIEWS_BOUND" and "current_view b < VIEWS_BOUND"
    and "box_in_range a" and "box_in_range b"
  shows "(0 < width (active_view a) \<and> 0 < height (active_view a) \<and>
          0 < width (active_view b) \<and> 0 < height (active_view b) \<and>
          box_left a \<noteq> box_left b \<and> box_top a \<noteq> box_top b \<longrightarrow>
            check_collision a b = Some (boxes_overlap a b)) \<and>
         (check_collision a b = Some True \<and>
          0 < width (active_view b) \<and> 0 < height (active_view b) \<and>
          0 < width (active_view a) \<and> 0 < height (active_view a) \<longrightarrow> boxes_overlap a b) \<and>
         ((width (active_view a) \<le> 0 \<and> width (active_view b) \<le> 0) \<or>
          (height (active_view a) \<le> 0 \<and> height (active_view b) \<le> 0) \<longrightarrow>
            check_collision a b = Some False) \<and>
         (box_left a < box_left b \<and> box_left b < box_right a \<and>
          box_top a < box_top b \<and> box_top b < box_bottom a \<longrightarrow>
            check_collision a b = Some True \<and> check_collision b a = Some True) \<and>
         check_collision (box_entity 0 0 10 10) (box_entity 10 0 10 10) = Some False"
proof -
  note cc = check_collision_Some [OF assms]
  note cc' = check_collision_Some [OF assms(2,1,4,3)]
  have 1: "0 < width (active_view a) \<and> 0 < height (active_view a) \<and>
          0 < width (active_view b) \<and> 0 < height (active_view b) \<and>
          box_left a \<noteq> box_left b \<and> box_top a \<noteq> box_top b \<longrightarrow>
            check_collision a b = Some (boxes_overlap a b)"
    unfolding cc boxes_overlap_def intervals_meet_iff box_right_def box_bottom_def
    by auto
  have 2: "check_collision a b = Some True \<and>
          0 < width (active_view b) \<and> 0 < height (active_view b) \<and>
          0 < width (active_view a) \<and> 0 < height (active_view a) \<longrightarrow> boxes_overlap a b"
    unfolding cc boxes_overlap_def intervals_meet_iff box_right_def box_bottom_def
    by auto
  have 3: "(width (active_view a) \<le> 0 \<and> width (active_view b) \<le> 0) \<or>
          (height (active_view a) \<le> 0 \<and> height (active_view b) \<le> 0) \<longrightarrow>
            check_collision a b = Some False"
    unfolding cc box_right_def box_bottom_def by auto
  have 4: "box_left a < box_left b \<and> box_left b < box_right a \<and>
          box_top a < box_top b \<and> box_top b < box_bottom a \<longrightarrow>
            check_collision a b = Some True \<and> check_collision b a = Some True"
    unfolding cc cc' by auto
  have 5: "check_collision (box_entity 0 0 10 10) (box_entity 10 0 10 10) = Some False"
    by (simp add: check_collision_Some box_entity_simps VIEWS_BOUND_def in_int_def)
  from 1 2 3 4 5 show ?thesis by blast
qed

theorem check_collision_boxes_witness:
  "check_collision (box_entity 0 0 10 10) (box_entity 5 5 10 10) = Some True \<and>
   boxes_overlap (box_entity 0 0 10 10) (box_entity 5 5 10 10) \<and>
   check_collision (box_entity 0 0 0 10) (box_entity (- 3) 3 0 10) = Some False \<and>
   check_collision (box_entity 0 0 10 10) (box_entity 2 7 0 0) = Some True \<and>
   check_collision (box_entity 2 7 0 0) (box_entity 0 0 10 10) = Some True"
  using check_collision_boxes [of "box_entity 0 0 10 10" "box_entity 5 5 10 10"]
    check_collision_boxes [of "box_entity 0 0 0 10" "box_entity (- 3) 3 0 10"]
    check_collision_boxes [of "box_entity 0 0 10 10" "box_entity 2 7 0 0"]
  by (simp add: box_entity_simps VIEWS_BOUND_def boxes_overlap_def intervals_meet_iff
      in_int_def)

text \<open>
  C10. Two entities whose boxes have the same left edge never collide, whatever their
  widths, heights and vertical positions; in particular no entity collides with itself.
\<close>

theorem check_collision_same_left_edge:
  assumes "current_view a < VIEWS_BOUND" and "current_view b < VIEWS_BOUND"
  shows "(box_left a = box_left b \<longrightarrow> check_collision a b = Some False) \<and>
         check_collision a a = Some False"
  using assms by (simp add: check_collision_equal_left)

theorem check_collision_same_left_edge_witness:
  "check_collision (box_entity 0 0 10 10) (box_entity 0 5 20 3) = Some False \<and>
   check_collision (box_entity 0 0 10 10) (box_entity 0 0 10 10) = Some False \<and>
   boxes_overlap (box_entity 0 0 10 10) (box_entity 0 5 20 3)"
  using check_collision_same_left_edge [of "box_entity 0 0 10 10" "box_entity 0 5 20 3"]
  by (simp add: box_entity_simps VIEWS_BOUND_def boxes_overlap_def intervals_meet_iff)

section \<open>Verification: loading a view\<close>

lemma seek_back_Some:
  assumes "seek_back prev n = Some c"
  shows "\<exists>m \<ge> n. prev m = c \<and> (c = CHR 0x0A \<or> c = CHR 0x0D)"
proof (rule seek_back.raw_induct
    [where P = "\<lambda>b n c. \<exists>m \<ge> n. b m = c \<and> (c = CHR 0x0A \<or> c = CHR 0x0D)", OF _ assms])
  fix f :: "(nat \<Rightarrow> char) \<Rightarrow> nat \<Rightarrow> char option" and b n c
  assume IH: "\<And>b n c. f b n = Some c \<Longrightarrow>
      \<exists>m \<ge> n. b m = c \<and> (c = CHR 0x0A \<or> c = CHR 0x0D)"
    and eq: "(if b n = CHR 0x0A \<or> b n = CHR 0x0D then Some (b n) else f b (Suc n)) = Some c"
  show "\<exists>m \<ge> n. b m = c \<and> (c = CHR 0x0A \<or> c = CHR 0x0D)"
  proof (cases "b n = CHR 0x0A \<or> b n = CHR 0x0D")
    case True
    with eq have "b n = c" by simp
    with True show ?thesis by auto
  next
    case False
    with eq have "f b (Suc n) = Some c" by simp
    from IH [OF this] obtain m where "Suc n \<le> m" "b m = c \<and> (c = CHR 0x0A \<or> c = CHR 0x0D)"
      by blast
    then have "n \<le> m \<and> b m = c \<and> (c = CHR 0x0A \<or> c = CHR 0x0D)" by simp
    then show ?thesis by blast
  qed
qed

lemma seek_back_never:
  assumes "\<forall>n. prev n \<noteq> CHR 0x0A \<and> prev n \<noteq> CHR 0x0D"
  shows "seek_back prev n = None"
proof (cases "seek_back prev n")
  case None
  then show ?thesis .
next
  case (Some c)
  from seek_back_Some [OF this] assms show ?thesis by auto
qed

lemma seek_back_found:
  "prev (n + k) = CHR 0x0A \<or> prev (n + k) = CHR 0x0D \<Longrightarrow> seek_back prev n \<noteq> None"
proof (induction k arbitrary: n)
  case 0
  then show ?case by (subst seek_back.simps) auto
next
  case (Suc k)
  from Suc.prems have "prev (Suc n + k) = CHR 0x0A \<or> prev (Suc n + k) = CHR 0x0D" by simp
  from Suc.IH [OF this] show ?case by (subst seek_back.simps) auto
qed

lemma read_body_Inl:
  assumes "read_body body alloc n disp = Some (Inl msg)"
  shows "msg = ''Error allocating memory for entity view display'' @ [CHR 0x0A]"
proof -
  have "\<forall>m. Inl m = (Inl msg :: string + char list) \<longrightarrow>
       m = ''Error allocating memory for entity view display'' @ [CHR 0x0A]"
  proof (rule read_body.raw_induct
    [where P = "\<lambda>body alloc n disp r. \<forall>m. Inl m = r \<longrightarrow>
       m = ''Error allocating memory for entity view display'' @ [CHR 0x0A]", OF _ assms])
    fix f :: "(nat \<Rightarrow> char) \<Rightarrow> (nat \<Rightarrow> bool) \<Rightarrow> nat \<Rightarrow> char list \<Rightarrow> (string + char list) option"
      and body alloc n disp r
    assume IH: "\<And>body alloc n disp r. f body alloc n disp = Some r \<Longrightarrow>
        \<forall>m. Inl m = r \<longrightarrow> m = ''Error allocating memory for entity view display'' @ [CHR 0x0A]"
      and eq: "(if alloc (Suc (length disp)) then
          (if eof_to_nul (body n) = CHR 0x00 then Some (Inr (disp @ [CHR 0x00]))
           else f body alloc (Suc n) (disp @ [eof_to_nul (body n)]))
        else Some (Inl (''Error allocating memory for entity view display'' @ [CHR 0x0A]))) = Some r"
    show "\<forall>m. Inl m = r \<longrightarrow>
        m = ''Error allocating memory for entity view display'' @ [CHR 0x0A]"
    proof (cases "alloc (Suc (length disp))")
      case False
      with eq show ?thesis by auto
    next
      case True
      show ?thesis
      proof (cases "eof_to_nul (body n) = CHR 0x00")
        case True
        with \<open>alloc (Suc (length disp))\<close> eq show ?thesis by auto
      next
        case False
        with \<open>alloc (Suc (length disp))\<close> eq
        have "f body alloc (Suc n) (disp @ [eof_to_nul (body n)]) = Some r" by simp
        from IH [OF this] show ?thesis .
      qed
    qed
  qed
  then show ?thesis by simp
qed

lemma add_entity_view_cases:
  "\<not> io_open (load fname) \<Longrightarrow>
     add_entity_view_from_file load e fname =
       Some (Exited (''Error opening file '' @ [CHR 0x27] @ fname @ [CHR 0x27]))"
  "io_open (load fname) \<Longrightarrow> io_num (load fname) \<noteq> 4 \<Longrightarrow>
     add_entity_view_from_file load e fname =
       Some (Exited (''Error parsing entity file '' @ [CHR 0x27] @ fname @ [CHR 0x27, CHR 0x0A]))"
  "io_open (load fname) \<Longrightarrow> io_num (load fname) = 4 \<Longrightarrow>
   seek_back (io_back (load fname)) 0 = None \<Longrightarrow>
     add_entity_view_from_file load e fname = None"
  "io_open (load fname) \<Longrightarrow> io_num (load fname) = 4 \<Longrightarrow>
   seek_back (io_back (load fname)) 0 \<noteq> None \<Longrightarrow>
   read_body (io_body (load fname)) (io_alloc (load fname)) 0 [] = None \<Longrightarrow>
     add_entity_view_from_file load e fname = None"
  "io_open (load fname) \<Longrightarrow> io_num (load fname) = 4 \<Longrightarrow>
   seek_back (io_back (load fname)) 0 \<noteq> None \<Longrightarrow>
   read_body (io_body (load fname)) (io_alloc (load fname)) 0 [] = Some (Inl msg) \<Longrightarrow>
     add_entity_view_from_file load e fname = Some (Exited msg)"
  "io_open (load fname) \<Longrightarrow> io_num (load fname) = 4 \<Longrightarrow>
   seek_back (io_back (load fname)) 0 \<noteq> None \<Longrightarrow>
   read_body (io_body (load fname)) (io_alloc (load fname)) 0 [] = Some (Inr disp) \<Longrightarrow>
     add_entity_view_from_file load e fname =
       (if num_views e < VIEWS_BOUND
        then Some (Returned (e\<lparr>views := (views e)[num_views e := stored_view (load fname) disp],
                               num_views := Suc (num_views e)\<rparr>))
        else Some Undefined)"
  by (auto simp: add_entity_view_from_file_def stored_view_def split: option.splits)

lemma read_body_total:
  "\<forall>m. alloc m \<Longrightarrow> eof_to_nul (body (n + k)) = CHR 0x00 \<Longrightarrow>
   \<exists>disp. read_body body alloc n disp0 = Some (Inr disp)"
proof (induction k arbitrary: n disp0)
  case 0
  then show ?case by (subst read_body.simps) simp
next
  case (Suc k)
  from Suc.prems(2) have e: "eof_to_nul (body (Suc n + k)) = CHR 0x00" by simp
  show ?case
  proof (cases "eof_to_nul (body n) = CHR 0x00")
    case True
    with Suc.prems(1) show ?thesis by (subst read_body.simps) simp
  next
    case False
    from Suc.IH [OF Suc.prems(1) e, of "disp0 @ [eof_to_nul (body n)]"] obtain disp where
      "read_body body alloc (Suc n) (disp0 @ [eof_to_nul (body n)]) = Some (Inr disp)"
      by blast
    with False Suc.prems(1) show ?thesis by (subst read_body.simps) simp
  qed
qed

lemma add_entity_view_returns:
  assumes "io_open (load fname)" and "io_num (load fname) = 4"
    and "io_back (load fname) p = CHR 0x0A \<or> io_back (load fname) p = CHR 0x0D"
    and "\<forall>m. io_alloc (load fname) m"
    and "eof_to_nul (io_body (load fname) q) = CHR 0x00"
    and "num_views e < VIEWS_BOUND"
  shows "\<exists>disp. add_entity_view_from_file load e fname =
     Some (Returned (e\<lparr>views := (views e)[num_views e := stored_view (load fname) disp],
                       num_views := Suc (num_views e)\<rparr>))"
proof -
  from assms(3) have s: "seek_back (io_back (load fname)) 0 \<noteq> None"
    using seek_back_found [of "io_back (load fname)" 0 p] by simp
  from read_body_total [OF assms(4), of "io_body (load fname)" 0 q "[]"] assms(5)
  obtain disp where
    r: "read_body (io_body (load fname)) (io_alloc (load fname)) 0 [] = Some (Inr disp)"
    by auto
  from add_entity_view_cases(6) [of load fname disp e] assms(1,2,6) s r show ?thesis
    by auto
qed

lemma add_entity_view_fatal_iff:
  "is_fatal (add_entity_view_from_file load e fname) \<longleftrightarrow>
     \<not> io_open (load fname) \<or> io_num (load fname) \<noteq> 4 \<or>
     (seek_back (io_back (load fname)) 0 \<noteq> None \<and>
      (\<exists>msg. read_body (io_body (load fname)) (io_alloc (load fname)) 0 [] = Some (Inl msg)))"
  by (auto simp: add_entity_view_from_file_def is_fatal_def
      split: option.splits sum.splits if_splits)

lemma add_entity_view_never_iff:
  "add_entity_view_from_file load e fname = None \<longleftrightarrow>
     io_open (load fname) \<and> io_num (load fname) = 4 \<and>
     (seek_back (io_back (load fname)) 0 = None \<or>
      read_body (io_body (load fname)) (io_alloc (load fname)) 0 [] = None)"
  by (auto simp: add_entity_view_from_file_def split: option.splits sum.splits if_splits)

lemma example_io_loops:
  "seek_back (io_back example_io) 0 = Some (CHR 0x0A)"
  "read_body (io_body example_io) (io_alloc example_io) 0 [] = Some (Inr [CHR ''#'', CHR 0x00])"
  "io_open example_io" "io_num example_io = 4"
  by (simp_all add: example_io_def seek_back.simps read_body.simps eof_to_nul_def)

lemma example_files_simps:
  "example_files ''missing.entity'' = example_io\<lparr>io_open := False\<rparr>"
  "example_files ''header.entity'' = example_io\<lparr>io_num := 2\<rparr>"
  "example_files ''oneline.entity'' = example_io\<lparr>io_back := (\<lambda>n. CHR ''0'')\<rparr>"
  "example_files ''huge.entity'' = example_io\<lparr>io_alloc := (\<lambda>n. n < 2)\<rparr>"
  "example_files ''0.entity'' = example_io"
  by (simp_all add: example_files_def)

lemma example_huge_body:
  "read_body (io_body example_io) (\<lambda>n. n < 2) 0 [] =
     Some (Inl (''Error allocating memory for entity view display'' @ [CHR 0x0A]))"
  by (simp add: example_io_def read_body.simps eof_to_nul_def)

text \<open>
  C7, as stated, fails: for an entity that already holds 10 views and an asset file that
  opens, parses and is read to its end, \<open>add_entity_view_from_file\<close> does not exit
  with a diagnostic; it stores outside the array.
\<close>

theorem add_entity_view_full_counterexample:
  "num_views (digit_entity 0) = VIEWS_BOUND \<and>
   add_entity_view_from_file (\<lambda>n. example_io) (digit_entity 0) ''0.entity'' = Some Undefined \<and>
   \<not> is_fatal (add_entity_view_from_file (\<lambda>n. example_io) (digit_entity 0) ''0.entity'')"
proof -
  have n: "num_views (digit_entity 0) = VIEWS_BOUND"
    by (simp add: digit_entity_def VIEWS_BOUND_def)
  have "add_entity_view_from_file (\<lambda>n. example_io) (digit_entity 0) ''0.entity'' = Some Undefined"
    using add_entity_view_cases(6) [of "\<lambda>n. example_io" "''0.entity''" "[CHR ''#'', CHR 0x00]"
        "digit_entity 0"] example_io_loops n
    by simp
  with n show ?thesis by (simp add: is_fatal_def)
qed

text \<open>
  C7 (amended). Whether \<open>add_entity_view_from_file\<close> exits with a diagnostic, and
  whether it returns at all, depends on the file only, never on the number of views the
  entity holds. It exits with a diagnostic naming the file when the file cannot be
  opened or its header does not give four numbers, and with the allocation diagnostic
  when \<open>realloc\<close> fails while the body is read; it never returns when the seek-back
  loop finds no newline or carriage return. When the file is read to its end, the view
  is stored at index \<open>num_views\<close> and the count grows by one if the entity holds fewer
  than 10 views; with 10 views or more the store is outside the array, and nothing is
  reported. The call returns with the view stored whenever the file opens, its header
  gives four numbers, the seek-back loop meets a newline or carriage return in some
  pass, the body ends, every allocation succeeds and the entity holds fewer than 10
  views.
\<close>

theorem add_entity_view_outcomes:
  "(is_fatal (add_entity_view_from_file load e fname) =
      is_fatal (add_entity_view_from_file load e' fname)) \<and>
   ((add_entity_view_from_file load e fname = None) =
      (add_entity_view_from_file load e' fname = None)) \<and>
   (\<not> io_open (load fname) \<longrightarrow>
      add_entity_view_from_file load e fname =
        Some (Exited (''Error opening file '' @ [CHR 0x27] @ fname @ [CHR 0x27]))) \<and>
   (io_open (load fname) \<and> io_num (load fname) \<noteq> 4 \<longrightarrow>
      add_entity_view_from_file load e fname =
        Some (Exited (''Error parsing entity file '' @ [CHR 0x27] @ fname @
                      [CHR 0x27, CHR 0x0A]))) \<and>
   (io_open (load fname) \<and> io_num (load fname) = 4 \<and>
    (\<forall>n. io_back (load fname) n \<noteq> CHR 0x0A \<and> io_back (load fname) n \<noteq> CHR 0x0D) \<longrightarrow>
      add_entity_view_from_file load e fname = None) \<and>
   (io_open (load fname) \<and> io_num (load fname) = 4 \<and>
    seek_back (io_back (load fname)) 0 \<noteq> None \<and>
    read_body (io_body (load fname)) (io_alloc (load fname)) 0 [] = Some (Inl msg) \<longrightarrow>
      add_entity_view_from_file load e fname =
        Some (Exited (''Error allocating memory for entity view display'' @ [CHR 0x0A]))) \<and>
   (io_open (load fname) \<and> io_num (load fname) = 4 \<and>
    seek_back (io_back (load fname)) 0 \<noteq> None \<and>
    read_body (io_body (load fname)) (io_alloc (load fname)) 0 [] = Some (Inr disp) \<and>
    num_views e < VIEWS_BOUND \<longrightarrow>
      add_entity_view_from_file load e fname =
        Some (Returned (e\<lparr>views := (views e)[num_views e := stored_view (load fname) disp],
                          num_views := Suc (num_views e)\<rparr>))) \<and>
   (io_open (load fname) \<and> io_num (load fname) = 4 \<and>
    seek_back (io_back (load fname)) 0 \<noteq> None \<and>
    read_body (io_body (load fname)) (io_alloc (load fname)) 0 [] = Some (Inr disp) \<and>
    VIEWS_BOUND \<le> num_views e \<longrightarrow>
      add_entity_view_from_file load e fname = Some Undefined) \<and>
   (io_open (load fname) \<and> io_num (load fname) = 4 \<and>
    (io_back (load fname) p = CHR 0x0A \<or> io_back (load fname) p = CHR 0x0D) \<and>
    (\<forall>m. io_alloc (load fname) m) \<and> eof_to_nul (io_body (load fname) q) = CHR 0x00 \<and>
    num_views e < VIEWS_BOUND \<longrightarrow>
      (\<exists>disp1. add_entity_view_from_file load e fname =
         Some (Returned (e\<lparr>views := (views e)[num_views e := stored_view (load fname) disp1],
                           num_views := Suc (num_views e)\<rparr>))))"
proof -
  have 1: "is_fatal (add_entity_view_from_file load e fname) =
      is_fatal (add_entity_view_from_file load e' fname)"
    by (simp only: add_entity_view_fatal_iff)
  have 2: "(add_entity_view_from_file load e fname = None) =
      (add_entity_view_from_file load e' fname = None)"
    by (simp only: add_entity_view_never_iff)
  have 3: "\<not> io_open (load fname) \<longrightarrow>
      add_entity_view_from_file load e fname =
        Some (Exited (''Error opening file '' @ [CHR 0x27] @ fname @ [CHR 0x27]))"
    using add_entity_view_cases(1) [of load fname e] by blast
  have 4: "io_open (load fname) \<and> io_num (load fname) \<noteq> 4 \<longrightarrow>
      add_entity_view_from_file load e fname =
        Some (Exited (''Error parsing entity file '' @ [CHR 0x27] @ fname @
                      [CHR 0x27, CHR 0x0A]))"
    using add_entity_view_cases(2) [of load fname e] by blast
  have 5: "io_open (load fname) \<and> io_num (load fname) = 4 \<and>
    (\<forall>n. io_back (load fname) n \<noteq> CHR 0x0A \<and> io_back (load fname) n \<noteq> CHR 0x0D) \<longrightarrow>
      add_entity_view_from_file load e fname = None"
  proof (intro impI, elim conjE)
    assume a: "io_open (load fname)" "io_num (load fname) = 4"
      and b: "\<forall>n. io_back (load fname) n \<noteq> CHR 0x0A \<and> io_back (load fname) n \<noteq> CHR 0x0D"
    have "seek_back (io_back (load fname)) 0 = None"
      using b by (rule seek_back_never)
    with a show "add_entity_view_from_file load e fname = None"
      by (simp add: add_entity_view_cases(3))
  qed
  have 6: "io_open (load fname) \<and> io_num (load fname) = 4 \<and>
    seek_back (io_back (load fname)) 0 \<noteq> None \<and>
    read_body (io_body (load fname)) (io_alloc (load fname)) 0 [] = Some (Inl msg) \<longrightarrow>
      add_entity_view_from_file load e fname =
        Some (Exited (''Error allocating memory for entity view display'' @ [CHR 0x0A]))"
  proof (intro impI, elim conjE)
    assume a: "io_open (load fname)" "io_num (load fname) = 4"
      "seek_back (io_back (load fname)) 0 \<noteq> None"
      "read_body (io_body (load fname)) (io_alloc (load fname)) 0 [] = Some (Inl msg)"
    from read_body_Inl [OF a(4)] add_entity_view_cases(5) [of load fname msg e] a
    show "add_entity_view_from_file load e fname =
        Some (Exited (''Error allocating memory for entity view display'' @ [CHR 0x0A]))"
      by simp
  qed
  have 7: "io_open (load fname) \<and> io_num (load fname) = 4 \<and>
    seek_back (io_back (load fname)) 0 \<noteq> None \<and>
    read_body (io_body (load fname)) (io_alloc (load fname)) 0 [] = Some (Inr disp) \<and>
    num_views e < VIEWS_BOUND \<longrightarrow>
      add_entity_view_from_file load e fname =
        Some (Returned (e\<lparr>views := (views e)[num_views e := stored_view (load fname) disp],
                          num_views := Suc (num_views e)\<rparr>))"
    using add_entity_view_cases(6) [of load fname disp e] by auto
  have 8: "io_open (load fname) \<and> io_num (load fname) = 4 \<and>
    seek_back (io_back (load fname)) 0 \<noteq> None \<and>
    read_body (io_body (load fname)) (io_alloc (load fname)) 0 [] = Some (Inr disp) \<and>
    VIEWS_BOUND \<le> num_views e \<longrightarrow>
      add_entity_view_from_file load e fname = Some Undefined"
    using add_entity_view_cases(6) [of load fname disp e] by auto
  have 9: "io_open (load fname) \<and> io_num (load fname) = 4 \<and>
    (io_back (load fname) p = CHR 0x0A \<or> io_back (load fname) p = CHR 0x0D) \<and>
    (\<forall>m. io_alloc (load fname) m) \<and> eof_to_nul (io_body (load fname) q) = CHR 0x00 \<and>
    num_views e < VIEWS_BOUND \<longrightarrow>
      (\<exists>disp1. add_entity_view_from_file load e fname =
         Some (Returned (e\<lparr>views := (views e)[num_views e := stored_view (load fname) disp1],
                           num_views := Suc (num_views e)\<rparr>)))"
  proof (intro impI, elim conjE)
    assume a: "io_open (load fname)" "io_num (load fname) = 4"
      "io_back (load fname) p = CHR 0x0A \<or> io_back (load fname) p = CHR 0x0D"
      "\<forall>m. io_alloc (load fname) m" "eof_to_nul (io_body (load fname) q) = CHR 0x00"
      "num_views e < VIEWS_BOUND"
    show "\<exists>disp1. add_entity_view_from_file load e fname =
         Some (Returned (e\<lparr>views := (views e)[num_views e := stored_view (load fname) disp1],
                           num_views := Suc (num_views e)\<rparr>))"
      using a by (rule add_entity_view_returns)
  qed
  from 1 2 3 4 5 6 7 8 9 show ?thesis by (intro conjI)
qed

theorem add_entity_view_outcomes_witness:
  "add_entity_view_from_file example_files (digit_entity 0) ''missing.entity'' =
     Some (Exited (''Error opening file '' @ [CHR 0x27] @ ''missing.entity'' @ [CHR 0x27])) \<and>
   add_entity_view_from_file example_files (digit_entity 0) ''header.entity'' =
     Some (Exited (''Error parsing entity file '' @ [CHR 0x27] @ ''header.entity'' @
                   [CHR 0x27, CHR 0x0A])) \<and>
   add_entity_view_from_file example_files create_entity ''oneline.entity'' = None \<and>
   add_entity_view_from_file example_files create_entity ''huge.entity'' =
     Some (Exited (''Error allocating memory for entity view display'' @ [CHR 0x0A])) \<and>
   add_entity_view_from_file example_files create_entity ''0.entity'' =
     Some (Returned (create_entity\<lparr>views := (views create_entity)
                        [0 := glyph_view 1 1 ''#''], num_views := 1\<rparr>)) \<and>
   add_entity_view_from_file example_files (digit_entity 0) ''0.entity'' = Some Undefined \<and>
   (\<exists>disp1. add_entity_view_from_file example_files (loaded_entity 9) ''0.entity'' =
      Some (Returned ((loaded_entity 9)
              \<lparr>views := (views (loaded_entity 9))[9 := stored_view example_io disp1],
               num_views := 10\<rparr>)))"
proof -
  have a: "num_views create_entity = 0" "num_views create_entity < VIEWS_BOUND"
    by (simp_all add: create_entity_def VIEWS_BOUND_def)
  have b: "VIEWS_BOUND \<le> num_views (digit_entity 0)"
    by (simp add: digit_entity_def VIEWS_BOUND_def)
  have c: "stored_view example_io [CHR ''#'', CHR 0x00] = glyph_view 1 1 ''#''"
    by (simp add: stored_view_def example_io_def glyph_view_def)
  have 1: "add_entity_view_from_file example_files (digit_entity 0) ''missing.entity'' =
     Some (Exited (''Error opening file '' @ [CHR 0x27] @ ''missing.entity'' @ [CHR 0x27]))"
    using add_entity_view_outcomes [of example_files "digit_entity 0" "''missing.entity''"]
    by (simp add: example_files_simps)
  have 2: "add_entity_view_from_file example_files (digit_entity 0) ''header.entity'' =
     Some (Exited (''Error parsing entity file '' @ [CHR 0x27] @ ''header.entity'' @
                   [CHR 0x27, CHR 0x0A]))"
    using add_entity_view_outcomes [of example_files "digit_entity 0" "''header.entity''"]
      example_io_loops
    by (simp add: example_files_simps)
  have 3: "add_entity_view_from_file example_files create_entity ''oneline.entity'' = None"
    using add_entity_view_outcomes [of example_files create_entity "''oneline.entity''"]
      example_io_loops
    by (simp add: example_files_simps)
  have 4: "add_entity_view_from_file example_files create_entity ''huge.entity'' =
     Some (Exited (''Error allocating memory for entity view display'' @ [CHR 0x0A]))"
    using add_entity_view_outcomes [of example_files create_entity "''huge.entity''"
        undefined "''Error allocating memory for entity view display'' @ [CHR 0x0A]"]
      example_io_loops example_huge_body
    by (simp add: example_files_simps)
  have 5: "add_entity_view_from_file example_files create_entity ''0.entity'' =
     Some (Returned (create_entity\<lparr>views := (views create_entity)
                        [0 := glyph_view 1 1 ''#''], num_views := 1\<rparr>))"
    using add_entity_view_outcomes [of example_files create_entity "''0.entity''"
        undefined undefined "[CHR ''#'', CHR 0x00]"]
      example_io_loops a c
    by (simp add: example_files_simps)
  have 6: "add_entity_view_from_file example_files (digit_entity 0) ''0.entity'' = Some Undefined"
    using add_entity_view_outcomes [of example_files "digit_entity 0" "''0.entity''"
        undefined undefined "[CHR ''#'', CHR 0x00]"]
      example_io_loops b
    by (simp add: example_files_simps)
  have l: "num_views (loaded_entity 9) = 9" "num_views (loaded_entity 9) < VIEWS_BOUND"
    by (simp_all add: loaded_entity_def VIEWS_BOUND_def)
  have io: "io_back example_io 2 = CHR 0x0A" "\<forall>m. io_alloc example_io m"
    "eof_to_nul (io_body example_io 1) = CHR 0x00"
    by (simp_all add: example_io_def eof_to_nul_def)
  have 7: "\<exists>disp1. add_entity_view_from_file example_files (loaded_entity 9) ''0.entity'' =
      Some (Returned ((loaded_entity 9)
              \<lparr>views := (views (loaded_entity 9))[9 := stored_view example_io disp1],
               num_views := 10\<rparr>))"
    using add_entity_view_outcomes [of example_files "loaded_entity 9" "''0.entity''"
        undefined undefined undefined 2 1]
      example_io_loops l io
    by (simp add: example_files_simps)
  from 1 2 3 4 5 6 7 show ?thesis by (intro conjI)
qed

section \<open>Verification: score counter and entity invariant\<close>

lemma num_digits_simps [simp]:
  "0 < s \<Longrightarrow> num_digits s = Suc (num_digits (s div 10))"
  "s \<le> 0 \<Longrightarrow> num_digits s = 0"
  by simp_all

declare num_digits.simps [simp del]
declare score_digits_loop.simps [simp del]

lemma num_digits_bound: "s < 10 ^ k \<Longrightarrow> num_digits s \<le> k"
proof (induction k arbitrary: s)
  case 0
  then show ?case by simp
next
  case (Suc k)
  show ?case
  proof (cases "0 < s")
    case True
    have "s div 10 < 10 ^ k" using Suc.prems by simp
    then have "num_digits (s div 10) \<le> k" by (rule Suc.IH)
    with True show ?thesis by simp
  next
    case False
    then show ?thesis by simp
  qed
qed

lemma num_digits_less_iff: "0 \<le> s \<Longrightarrow> i < num_digits s \<longleftrightarrow> 10 ^ i \<le> s"
proof (induction i arbitrary: s)
  case 0
  then show ?case by (cases "0 < s") auto
next
  case (Suc i)
  show ?case
  proof (cases "0 < s")
    case True
    have "i < num_digits (s div 10) \<longleftrightarrow> 10 ^ i \<le> s div 10"
      using Suc.prems by (intro Suc.IH) simp
    also have "\<dots> \<longleftrightarrow> 10 ^ Suc i \<le> s"
      by (simp, presburger)
    finally show ?thesis using True by simp
  next
    case False
    with Suc.prems have "s = 0" by simp
    moreover have "(0::int) < 10 ^ Suc i" by simp
    ultimately show ?thesis by (simp add: not_le del: power_Suc)
  qed
qed

lemma score_digits_loop_spec:
  "length ds = SCORE_COUNTER_DIGITS \<Longrightarrow> n + num_digits s \<le> SCORE_COUNTER_DIGITS \<Longrightarrow>
   \<exists>ds'. score_digits_loop s n ds = Some (n + num_digits s, ds') \<and> length ds' = length ds \<and>
     (\<forall>i < length ds. ds' ! i =
        (if n \<le> i \<and> i < n + num_digits s then set_digit s (i - n) (ds ! i) else ds ! i))"
proof (induction s n ds rule: score_digits_loop.induct)
  case (1 s n ds)
  show ?case
  proof (cases "0 < s")
    case False
    then show ?thesis by (auto simp: score_digits_loop.simps)
  next
    case True
    let ?ds1 = "ds[n := (ds ! n)\<lparr>current_view := nat (s mod 10), visible := True\<rparr>]"
    from True "1.prems" have n: "n < SCORE_COUNTER_DIGITS" by simp
    have len: "length ?ds1 = SCORE_COUNTER_DIGITS" using "1.prems" by simp
    have bnd: "Suc n + num_digits (s div 10) \<le> SCORE_COUNTER_DIGITS"
      using True "1.prems" by simp
    from "1.IH" [OF True n len bnd] obtain ds' where
      r: "score_digits_loop (s div 10) (Suc n) ?ds1 = Some (Suc n + num_digits (s div 10), ds')"
      and l: "length ds' = length ?ds1"
      and c: "\<forall>i < length ?ds1. ds' ! i =
        (if Suc n \<le> i \<and> i < Suc n + num_digits (s div 10)
         then set_digit (s div 10) (i - Suc n) (?ds1 ! i) else ?ds1 ! i)"
      by blast
    have "score_digits_loop s n ds = Some (n + num_digits s, ds')"
      using True n r by (subst score_digits_loop.simps) simp
    moreover have "length ds' = length ds" using l by simp
    moreover have "\<forall>i < length ds. ds' ! i =
        (if n \<le> i \<and> i < n + num_digits s then set_digit s (i - n) (ds ! i) else ds ! i)"
    proof (intro allI impI)
      fix i assume i: "i < length ds"
      then have ci: "ds' ! i =
        (if Suc n \<le> i \<and> i < Suc n + num_digits (s div 10)
         then set_digit (s div 10) (i - Suc n) (?ds1 ! i) else ?ds1 ! i)"
        using c by simp
      consider "i < n" | "i = n" | "n < i" by linarith
      then show "ds' ! i =
        (if n \<le> i \<and> i < n + num_digits s then set_digit s (i - n) (ds ! i) else ds ! i)"
      proof cases
        case 1
        then show ?thesis using ci by simp
      next
        case 2
        then show ?thesis using ci i True by (simp add: set_digit_def)
      next
        case 3
        then obtain j where j: "i - n = Suc j" "i - Suc n = j"
          by (metis Suc_diff_Suc)
        have "s div 10 div 10 ^ j = s div 10 ^ Suc j"
          by (simp add: zdiv_zmult2_eq)
        then have "set_digit (s div 10) j (ds ! i) = set_digit s (Suc j) (ds ! i)"
          by (simp add: set_digit_def)
        then show ?thesis using 3 ci True j by simp
      qed
    qed
    ultimately show ?thesis by blast
  qed
qed

lemma fold_hide_digit_length: "length (fold hide_digit js ds) = length ds"
  by (induction js arbitrary: ds) (simp_all add: hide_digit_def)

lemma fold_hide_digit_nth:
  "i < length ds \<Longrightarrow>
   fold hide_digit js ds ! i = (if i \<in> set js then (ds ! i)\<lparr>visible := False\<rparr> else ds ! i)"
proof (induction js arbitrary: ds)
  case Nil
  then show ?case by simp
next
  case (Cons j js)
  have "i < length (hide_digit j ds)" using Cons.prems by (simp add: hide_digit_def)
  from Cons.IH [OF this] show ?case
    using Cons.prems by (cases "i = j") (auto simp: hide_digit_def)
qed

lemma update_score_counter_result:
  assumes "score gs < 10 ^ 5"
    and "length (digits (score_counter gs)) = SCORE_COUNTER_DIGITS"
  shows "\<exists>ds'. update_score_counter gs =
           Some (gs\<lparr>score_counter := (score_counter gs)\<lparr>digits := ds'\<rparr>\<rparr>) \<and>
         length ds' = SCORE_COUNTER_DIGITS \<and>
         (\<forall>i < SCORE_COUNTER_DIGITS. ds' ! i =
            (if i < num_digits (score gs)
             then set_digit (score gs) i (digits (score_counter gs) ! i)
             else (digits (score_counter gs) ! i)\<lparr>visible := False\<rparr>))"
proof -
  let ?ds = "digits (score_counter gs)" and ?s = "score gs"
  have nd: "num_digits ?s \<le> SCORE_COUNTER_DIGITS"
    using assms(1) by (simp add: num_digits_bound SCORE_COUNTER_DIGITS_def)
  from score_digits_loop_spec [of ?ds 0 ?s] assms(2) nd obtain ds1 where
    r: "score_digits_loop ?s 0 ?ds = Some (num_digits ?s, ds1)"
    and l: "length ds1 = length ?ds"
    and c: "\<forall>i < length ?ds. ds1 ! i =
        (if i < num_digits ?s then set_digit ?s i (?ds ! i) else ?ds ! i)"
    by auto
  let ?ds' = "fold hide_digit [num_digits ?s..<SCORE_COUNTER_DIGITS] ds1"
  have "update_score_counter gs =
          Some (gs\<lparr>score_counter := (score_counter gs)\<lparr>digits := ?ds'\<rparr>\<rparr>)"
    by (simp add: update_score_counter_def r)
  moreover have "length ?ds' = SCORE_COUNTER_DIGITS"
    using l assms(2) by (simp add: fold_hide_digit_length)
  moreover have "\<forall>i < SCORE_COUNTER_DIGITS. ?ds' ! i =
            (if i < num_digits ?s then set_digit ?s i (?ds ! i)
             else (?ds ! i)\<lparr>visible := False\<rparr>)"
    using l assms(2) c by (auto simp: fold_hide_digit_nth)
  ultimately show ?thesis by blast
qed

text \<open>
  C3. For a score \<open>s\<close> with \<open>0 \<le> s < 10 ^ 5\<close>, \<open>update_score_counter\<close> returns, and
  afterwards digit entity \<open>i\<close> (least significant first) is visible exactly when \<open>i\<close>
  is below the number of decimal digits of \<open>s\<close> (none for 0), that is when
  \<open>10 ^ i \<le> s\<close>, and the active view of
  every visible digit entity is \<open>(s div 10 ^ i) mod 10\<close>. The score 1234 gives the
  views 4, 3, 2, 1 at the places 0 to 3 and hides place 4; the score 0 hides every place.
\<close>

theorem update_score_counter_digits:
  assumes "0 \<le> score gs" and "score gs < 10 ^ 5"
    and "length (digits (score_counter gs)) = SCORE_COUNTER_DIGITS"
  shows "\<exists>gs'. update_score_counter gs = Some gs' \<and>
     (\<forall>i < SCORE_COUNTER_DIGITS.
        visible (digits (score_counter gs') ! i) = (i < num_digits (score gs)) \<and>
        (i < num_digits (score gs)) = (10 ^ i \<le> score gs) \<and>
        (visible (digits (score_counter gs') ! i) \<longrightarrow>
           current_view (digits (score_counter gs') ! i) = nat ((score gs div 10 ^ i) mod 10)))"
proof -
  from update_score_counter_result [OF assms(2,3)] obtain ds' where
    r: "update_score_counter gs =
          Some (gs\<lparr>score_counter := (score_counter gs)\<lparr>digits := ds'\<rparr>\<rparr>)"
    and c: "\<forall>i < SCORE_COUNTER_DIGITS. ds' ! i =
            (if i < num_digits (score gs)
             then set_digit (score gs) i (digits (score_counter gs) ! i)
             else (digits (score_counter gs) ! i)\<lparr>visible := False\<rparr>)"
    by blast
  show ?thesis
    unfolding r using c by (simp add: set_digit_def num_digits_less_iff [OF assms(1)])
qed

lemma num_digits_1234: "num_digits 1234 = 4"
  by simp

theorem update_score_counter_digits_witness:
  "(\<exists>gs'. update_score_counter (example_state\<lparr>score := 1234\<rparr>) = Some gs' \<and>
     current_view (digits (score_counter gs') ! 0) = 4 \<and>
     current_view (digits (score_counter gs') ! 1) = 3 \<and>
     current_view (digits (score_counter gs') ! 2) = 2 \<and>
     current_view (digits (score_counter gs') ! 3) = 1 \<and>
     visible (digits (score_counter gs') ! 0) \<and> visible (digits (score_counter gs') ! 1) \<and>
     visible (digits (score_counter gs') ! 2) \<and> visible (digits (score_counter gs') ! 3) \<and>
     \<not> visible (digits (score_counter gs') ! 4)) \<and>
   (\<exists>gs'. update_score_counter (example_state\<lparr>score := 0\<rparr>) = Some gs' \<and>
     \<not> visible (digits (score_counter gs') ! 0) \<and> \<not> visible (digits (score_counter gs') ! 1) \<and>
     \<not> visible (digits (score_counter gs') ! 2) \<and> \<not> visible (digits (score_counter gs') ! 3) \<and>
     \<not> visible (digits (score_counter gs') ! 4))"
proof -
  have h: "0 \<le> score (example_state\<lparr>score := 1234\<rparr>)"
    "score (example_state\<lparr>score := 1234\<rparr>) < 10 ^ 5"
    "length (digits (score_counter (example_state\<lparr>score := 1234\<rparr>))) = SCORE_COUNTER_DIGITS"
    by (simp_all add: example_state_def SCORE_COUNTER_DIGITS_def)
  from update_score_counter_digits [OF h] obtain gs' where
    r: "update_score_counter (example_state\<lparr>score := 1234\<rparr>) = Some gs'"
    and c: "\<forall>i < SCORE_COUNTER_DIGITS.
        visible (digits (score_counter gs') ! i) = (i < 4) \<and>
        (visible (digits (score_counter gs') ! i) \<longrightarrow>
           current_view (digits (score_counter gs') ! i) = nat ((1234 div 10 ^ i) mod 10))"
    by (auto simp: num_digits_1234)
  from c have "\<forall>i \<in> {0, 1, 2, 3, 4}.
        visible (digits (score_counter gs') ! i) = (i < 4) \<and>
        (visible (digits (score_counter gs') ! i) \<longrightarrow>
           current_view (digits (score_counter gs') ! i) = nat ((1234 div 10 ^ i) mod 10))"
    by (simp add: SCORE_COUNTER_DIGITS_def)
  with r have 1: "\<exists>gs'. update_score_counter (example_state\<lparr>score := 1234\<rparr>) = Some gs' \<and>
     current_view (digits (score_counter gs') ! 0) = 4 \<and>
     current_view (digits (score_counter gs') ! 1) = 3 \<and>
     current_view (digits (score_counter gs') ! 2) = 2 \<and>
     current_view (digits (score_counter gs') ! 3) = 1 \<and>
     visible (digits (score_counter gs') ! 0) \<and> visible (digits (score_counter gs') ! 1) \<and>
     visible (digits (score_counter gs') ! 2) \<and> visible (digits (score_counter gs') ! 3) \<and>
     \<not> visible (digits (score_counter gs') ! 4)"
    by simp
  have h0: "0 \<le> score (example_state\<lparr>score := 0\<rparr>)"
    "score (example_state\<lparr>score := 0\<rparr>) < 10 ^ 5"
    "length (digits (score_counter (example_state\<lparr>score := 0\<rparr>))) = SCORE_COUNTER_DIGITS"
    by (simp_all add: example_state_def SCORE_COUNTER_DIGITS_def)
  from update_score_counter_digits [OF h0] obtain gs0 where
    r0: "update_score_counter (example_state\<lparr>score := 0\<rparr>) = Some gs0"
    and c0: "\<forall>i < SCORE_COUNTER_DIGITS. \<not> visible (digits (score_counter gs0) ! i)"
    by auto
  from c0 have "\<forall>i \<in> {0, 1, 2, 3, 4}. \<not> visible (digits (score_counter gs0) ! i)"
    by (simp add: SCORE_COUNTER_DIGITS_def)
  with r0 have 2: "\<exists>gs'. update_score_counter (example_state\<lparr>score := 0\<rparr>) = Some gs' \<and>
     \<not> visible (digits (score_counter gs') ! 0) \<and> \<not> visible (digits (score_counter gs') ! 1) \<and>
     \<not> visible (digits (score_counter gs') ! 2) \<and> \<not> visible (digits (score_counter gs') ! 3) \<and>
     \<not> visible (digits (score_counter gs') ! 4)"
    by simp
  from 1 2 show ?thesis by blast
qed

lemma score_digits_loop_views:
  "score_digits_loop s n ds = Some (m, ds') \<Longrightarrow>
   length ds' = length ds \<and>
   (\<forall>i < length ds. num_views (ds' ! i) = num_views (ds ! i) \<and>
      (current_view (ds' ! i) = current_view (ds ! i) \<or> current_view (ds' ! i) < 10))"
proof (induction s n ds rule: score_digits_loop.induct)
  case (1 s n ds)
  show ?case
  proof (cases "0 < s")
    case False
    with "1.prems" show ?thesis by (simp add: score_digits_loop.simps)
  next
    case True
    let ?ds1 = "ds[n := (ds ! n)\<lparr>current_view := nat (s mod 10), visible := True\<rparr>]"
    from True "1.prems" have n: "n < SCORE_COUNTER_DIGITS"
      by (subst (asm) score_digits_loop.simps) (simp split: if_splits)
    from True n "1.prems" have r: "score_digits_loop (s div 10) (Suc n) ?ds1 = Some (m, ds')"
      by (subst (asm) score_digits_loop.simps) simp
    from "1.IH" [OF True n r] have
      l: "length ds' = length ?ds1"
      and c: "\<forall>i < length ?ds1. num_views (ds' ! i) = num_views (?ds1 ! i) \<and>
        (current_view (ds' ! i) = current_view (?ds1 ! i) \<or> current_view (ds' ! i) < 10)"
      by blast+
    have d: "nat (s mod 10) < 10" by simp
    have "\<forall>i < length ds. num_views (?ds1 ! i) = num_views (ds ! i) \<and>
        (current_view (?ds1 ! i) = current_view (ds ! i) \<or> current_view (?ds1 ! i) < 10)"
    proof (cases "n < length ds")
      case True
      then show ?thesis using d by (auto simp: nth_list_update)
    next
      case False
      then show ?thesis by simp
    qed
    with l c show ?thesis by (metis length_list_update)
  qed
qed

lemma update_score_counter_views:
  assumes "update_score_counter gs = Some gs'"
  shows "length (digits (score_counter gs')) = length (digits (score_counter gs)) \<and>
   (\<forall>i < length (digits (score_counter gs)).
      num_views (digits (score_counter gs') ! i) = num_views (digits (score_counter gs) ! i) \<and>
      (current_view (digits (score_counter gs') ! i) =
         current_view (digits (score_counter gs) ! i) \<or>
       current_view (digits (score_counter gs') ! i) < 10))"
proof -
  from assms obtain m ds1 where
    r: "score_digits_loop (score gs) 0 (digits (score_counter gs)) = Some (m, ds1)"
    and g: "gs' = gs\<lparr>score_counter := (score_counter gs)
              \<lparr>digits := fold hide_digit [m..<SCORE_COUNTER_DIGITS] ds1\<rparr>\<rparr>"
    by (auto simp: update_score_counter_def split: option.splits)
  from score_digits_loop_views [OF r] show ?thesis
    unfolding g by (simp add: fold_hide_digit_length fold_hide_digit_nth)
qed

lemma update_score_counter_inv:
  assumes "update_score_counter gs = Some gs'"
    and "\<forall>d \<in> set (digits (score_counter gs)). num_views d = 10 \<and> entity_inv_strong d"
  shows "\<forall>d \<in> set (digits (score_counter gs')). num_views d = 10 \<and> entity_inv_strong d"
proof
  fix d assume "d \<in> set (digits (score_counter gs'))"
  then obtain i where i: "i < length (digits (score_counter gs'))"
    and d: "d = digits (score_counter gs') ! i"
    by (auto simp: in_set_conv_nth)
  from update_score_counter_views [OF assms(1)] i have
    i': "i < length (digits (score_counter gs))"
    and v: "num_views d = num_views (digits (score_counter gs) ! i)"
    and c: "current_view d = current_view (digits (score_counter gs) ! i) \<or> current_view d < 10"
    unfolding d by auto
  from i' assms(2) have "num_views (digits (score_counter gs) ! i) = 10"
    and "entity_inv_strong (digits (score_counter gs) ! i)"
    by auto
  with v c show "num_views d = 10 \<and> entity_inv_strong d"
    by (auto simp: entity_inv_strong_def)
qed

lemma next_entity_view_inv:
  "next_entity_view e = Some e' \<Longrightarrow> entity_inv_strong e'"
  by (auto simp: next_entity_view_def entity_inv_strong_def split: if_splits)

lemma add_entity_view_inv:
  "entity_inv_strong e \<Longrightarrow> add_entity_view_from_file load e fname = Some (Returned e') \<Longrightarrow>
   entity_inv_strong e'"
  by (auto simp: add_entity_view_from_file_def entity_inv_strong_def
      split: option.splits sum.splits if_splits)

lemma digits_step_inv:
  assumes r: "score_digits_loop sc 0 ds = Some (n, ds1)"
    and a: "\<forall>d \<in> set ds. num_views d = 10 \<and> entity_inv_strong d"
  shows "\<forall>d \<in> set (fold hide_digit [n..<SCORE_COUNTER_DIGITS] ds1).
           num_views d = 10 \<and> entity_inv_strong d"
proof
  let ?ds' = "fold hide_digit [n..<SCORE_COUNTER_DIGITS] ds1"
  fix d assume "d \<in> set ?ds'"
  then obtain i where i: "i < length ?ds'" and d: "d = ?ds' ! i"
    by (auto simp: in_set_conv_nth)
  from score_digits_loop_views [OF r] have l: "length ds1 = length ds"
    and c: "\<forall>i < length ds. num_views (ds1 ! i) = num_views (ds ! i) \<and>
      (current_view (ds1 ! i) = current_view (ds ! i) \<or> current_view (ds1 ! i) < 10)"
    by blast+
  from i l have i': "i < length ds" by (simp add: fold_hide_digit_length)
  with l have i1: "i < length ds1" by simp
  from c [rule_format, OF i'] have v: "num_views (ds1 ! i) = num_views (ds ! i)"
    and w: "current_view (ds1 ! i) = current_view (ds ! i) \<or> current_view (ds1 ! i) < 10"
    by blast+
  from i' a have "num_views (ds ! i) = 10" and "entity_inv_strong (ds ! i)"
    by auto
  with v w have "num_views (ds1 ! i) = 10 \<and> entity_inv_strong (ds1 ! i)"
    by (auto simp: entity_inv_strong_def)
  then show "num_views d = 10 \<and> entity_inv_strong d"
    unfolding d fold_hide_digit_nth [OF i1] by (auto simp: entity_inv_strong_def)
qed

lemma update_score_counter_digits_eq:
  assumes "update_score_counter gs = Some gs'"
  shows "\<exists>n ds1. score_digits_loop (score gs) 0 (digits (score_counter gs)) = Some (n, ds1) \<and>
     digits (score_counter gs') = fold hide_digit [n..<SCORE_COUNTER_DIGITS] ds1"
  using assms by (auto simp: update_score_counter_def split: option.splits)

lemma reach_inv: "reach e \<Longrightarrow> entity_inv_strong e"
proof (induction rule: reach.induct)
  case reach_create
  show ?case by (simp add: entity_inv_strong_def create_entity_def)
next
  case (reach_add e load filename e')
  then show ?case by (simp add: add_entity_view_inv)
next
  case (reach_next e e')
  then show ?case by (simp add: next_entity_view_inv)
next
  case (reach_score ds sc n ds1 d')
  from reach_score(1) have "\<forall>d \<in> set ds. num_views d = 10 \<and> entity_inv_strong d"
    by simp
  from digits_step_inv [OF reach_score(2) this] reach_score(3) show ?case
    by simp
next
  case (reach_place e px py v)
  then show ?case by (simp add: entity_inv_strong_def)
qed

lemma entity_inv_strong_imp: "entity_inv_strong e \<Longrightarrow> entity_inv e"
  by (cases "num_views e = 0") (simp_all add: entity_inv_strong_def entity_inv_def)

lemma add_example_view:
  assumes "k < VIEWS_BOUND"
  shows "add_entity_view_from_file example_files (loaded_entity k) ''0.entity'' =
     Some (Returned (loaded_entity (Suc k)))"
proof -
  have c: "stored_view example_io [CHR ''#'', CHR 0x00] = glyph_view 1 1 ''#''"
    by (simp add: stored_view_def example_io_def glyph_view_def)
  from assms have d: "VIEWS_BOUND - k = Suc (VIEWS_BOUND - Suc k)" by simp
  have "(replicate k (glyph_view 1 1 ''#'') @ replicate (VIEWS_BOUND - k) zero_view)
          [k := glyph_view 1 1 ''#''] =
        replicate (Suc k) (glyph_view 1 1 ''#'') @ replicate (VIEWS_BOUND - Suc k) zero_view"
    by (subst d) (simp add: list_update_append replicate_append_same)
  then show ?thesis
    using add_entity_view_cases(6) [of example_files "''0.entity''" "[CHR ''#'', CHR 0x00]"
        "loaded_entity k"] example_io_loops assms c
    by (simp add: example_files_simps loaded_entity_def)
qed

lemma reach_loaded_entity: "k \<le> VIEWS_BOUND \<Longrightarrow> reach (loaded_entity k)"
proof (induction k)
  case 0
  have "loaded_entity 0 = create_entity"
    by (simp add: loaded_entity_def create_entity_def)
  then show ?case by (simp add: reach_create)
next
  case (Suc k)
  then have k: "k < VIEWS_BOUND" and r: "reach (loaded_entity k)" by simp_all
  from reach_add [OF r add_example_view [OF k]] show ?case .
qed

text \<open>
  C6. Every entity the program can hold (one made by \<open>create_entity\<close> and changed by
  any sequence of \<open>add_entity_view_from_file\<close>, \<open>next_entity_view\<close>,
  \<open>update_score_counter\<close> on digit entities with 10 views, and writes of position and
  visibility) satisfies the invariant: its current-view index is below its number of
  views whenever it has a view. The invariant holds after \<open>create_entity\<close>; it holds
  after \<open>add_entity_view_from_file\<close> returns on such an entity, and the call returns
  when the entity is below capacity, the file opens, its header gives four numbers, the
  seek-back loop meets a newline, the body ends and every allocation succeeds; it holds
  after
  \<open>next_entity_view\<close>, which returns for every entity with a view; and on digit
  entities with 10 views it is preserved by \<open>update_score_counter\<close>, which returns for
  every score below 100000.
\<close>

theorem entity_inv_reachable:
  "(reach e \<longrightarrow> entity_inv e) \<and>
   reach create_entity \<and> entity_inv create_entity \<and>
   (reach e \<and> add_entity_view_from_file load e fname = Some (Returned e') \<longrightarrow>
      reach e' \<and> entity_inv e') \<and>
   (num_views e < VIEWS_BOUND \<and> io_open (load fname) \<and> io_num (load fname) = 4 \<and>
    (io_back (load fname) p = CHR 0x0A \<or> io_back (load fname) p = CHR 0x0D) \<and>
    (\<forall>m. io_alloc (load fname) m) \<and> eof_to_nul (io_body (load fname) q) = CHR 0x00 \<longrightarrow>
      (\<exists>e'. add_entity_view_from_file load e fname = Some (Returned e'))) \<and>
   (0 < num_views e \<longrightarrow>
      (\<exists>e'. next_entity_view e = Some e' \<and> entity_inv e' \<and> (reach e \<longrightarrow> reach e'))) \<and>
   ((\<forall>d \<in> set (digits (score_counter gs)). num_views d = 10 \<and> entity_inv d) \<and>
    update_score_counter gs = Some gs' \<longrightarrow>
      (\<forall>d \<in> set (digits (score_counter gs')). num_views d = 10 \<and> entity_inv d)) \<and>
   ((\<forall>d \<in> set (digits (score_counter gs)). num_views d = 10 \<and> reach d) \<and>
    update_score_counter gs = Some gs' \<longrightarrow>
      (\<forall>d \<in> set (digits (score_counter gs')). reach d)) \<and>
   (score gs < 10 ^ 5 \<and> length (digits (score_counter gs)) = SCORE_COUNTER_DIGITS \<longrightarrow>
      update_score_counter gs \<noteq> None)"
proof -
  have 1: "reach e \<longrightarrow> entity_inv e"
    by (simp add: reach_inv entity_inv_strong_imp)
  have 2: "reach create_entity" by (rule reach_create)
  have 3: "entity_inv create_entity"
    by (simp add: entity_inv_def create_entity_def)
  have 4: "reach e \<and> add_entity_view_from_file load e fname = Some (Returned e') \<longrightarrow>
      reach e' \<and> entity_inv e'"
  proof (intro impI, elim conjE)
    assume a: "reach e" "add_entity_view_from_file load e fname = Some (Returned e')"
    from reach_add [OF a] have "reach e'" .
    then show "reach e' \<and> entity_inv e'"
      by (simp add: reach_inv entity_inv_strong_imp)
  qed
  have 5: "num_views e < VIEWS_BOUND \<and> io_open (load fname) \<and> io_num (load fname) = 4 \<and>
    (io_back (load fname) p = CHR 0x0A \<or> io_back (load fname) p = CHR 0x0D) \<and>
    (\<forall>m. io_alloc (load fname) m) \<and> eof_to_nul (io_body (load fname) q) = CHR 0x00 \<longrightarrow>
      (\<exists>e'. add_entity_view_from_file load e fname = Some (Returned e'))"
  proof (intro impI, elim conjE)
    assume a: "num_views e < VIEWS_BOUND" "io_open (load fname)" "io_num (load fname) = 4"
      "io_back (load fname) p = CHR 0x0A \<or> io_back (load fname) p = CHR 0x0D"
      "\<forall>m. io_alloc (load fname) m" "eof_to_nul (io_body (load fname) q) = CHR 0x00"
    from add_entity_view_returns [of load fname p q e] a
    show "\<exists>e'. add_entity_view_from_file load e fname = Some (Returned e')"
      by blast
  qed
  have 6: "0 < num_views e \<longrightarrow>
      (\<exists>e'. next_entity_view e = Some e' \<and> entity_inv e' \<and> (reach e \<longrightarrow> reach e'))"
  proof
    assume "0 < num_views e"
    then obtain e' where r: "next_entity_view e = Some e'"
      by (simp add: next_entity_view_def)
    from next_entity_view_inv [OF r] have "entity_inv e'" by (rule entity_inv_strong_imp)
    moreover have "reach e \<longrightarrow> reach e'" using r reach_next by blast
    ultimately show "\<exists>e'. next_entity_view e = Some e' \<and> entity_inv e' \<and> (reach e \<longrightarrow> reach e')"
      using r by blast
  qed
  have 7: "(\<forall>d \<in> set (digits (score_counter gs)). num_views d = 10 \<and> entity_inv d) \<and>
    update_score_counter gs = Some gs' \<longrightarrow>
      (\<forall>d \<in> set (digits (score_counter gs')). num_views d = 10 \<and> entity_inv d)"
  proof (intro impI, elim conjE)
    assume a: "\<forall>d \<in> set (digits (score_counter gs)). num_views d = 10 \<and> entity_inv d"
      and r: "update_score_counter gs = Some gs'"
    from a have "\<forall>d \<in> set (digits (score_counter gs)). num_views d = 10 \<and> entity_inv_strong d"
      by (auto simp: entity_inv_def entity_inv_strong_def)
    from update_score_counter_inv [OF r this]
    show "\<forall>d \<in> set (digits (score_counter gs')). num_views d = 10 \<and> entity_inv d"
      by (auto simp: entity_inv_strong_imp)
  qed
  have 8: "(\<forall>d \<in> set (digits (score_counter gs)). num_views d = 10 \<and> reach d) \<and>
    update_score_counter gs = Some gs' \<longrightarrow>
      (\<forall>d \<in> set (digits (score_counter gs')). reach d)"
  proof (intro impI, elim conjE)
    assume a: "\<forall>d \<in> set (digits (score_counter gs)). num_views d = 10 \<and> reach d"
      and r: "update_score_counter gs = Some gs'"
    from update_score_counter_digits_eq [OF r] obtain n ds1 where
      l: "score_digits_loop (score gs) 0 (digits (score_counter gs)) = Some (n, ds1)"
      and e: "digits (score_counter gs') = fold hide_digit [n..<SCORE_COUNTER_DIGITS] ds1"
      by (elim exE conjE) (rule that)
    from a have a': "\<forall>d \<in> set (digits (score_counter gs)). reach d \<and> num_views d = 10"
      by simp
    show "\<forall>d \<in> set (digits (score_counter gs')). reach d"
    proof
      fix d assume "d \<in> set (digits (score_counter gs'))"
      then have "d \<in> set (fold hide_digit [n..<SCORE_COUNTER_DIGITS] ds1)"
        by (simp only: e)
      from reach_score [OF a' l this] show "reach d" .
    qed
  qed
  have 9: "score gs < 10 ^ 5 \<and> length (digits (score_counter gs)) = SCORE_COUNTER_DIGITS \<longrightarrow>
      update_score_counter gs \<noteq> None"
    using update_score_counter_result [of gs] by auto
  from 1 2 3 4 5 6 7 8 9 show ?thesis by (intro conjI)
qed

theorem entity_inv_reachable_witness:
  "(\<exists>e1. add_entity_view_from_file example_files create_entity ''0.entity'' =
            Some (Returned e1) \<and> reach e1 \<and> entity_inv e1 \<and>
      (\<exists>e2. next_entity_view e1 = Some e2 \<and> reach e2 \<and> entity_inv e2)) \<and>
   reach (loaded_entity 10) \<and> entity_inv (loaded_entity 10) \<and>
   (\<exists>gs'. update_score_counter example_counter_state = Some gs' \<and>
      (\<forall>d \<in> set (digits (score_counter gs')). num_views d = 10 \<and> entity_inv d \<and> reach d))"
proof -
  let ?gs = example_counter_state
  have l0: "loaded_entity 0 = create_entity"
    by (simp add: loaded_entity_def create_entity_def)
  have a: "add_entity_view_from_file example_files create_entity ''0.entity'' =
     Some (Returned (loaded_entity 1))"
    using add_example_view [of 0] by (simp add: l0 VIEWS_BOUND_def)
  have n1: "0 < num_views (loaded_entity 1)" by (simp add: loaded_entity_def)
  have r10: "reach (loaded_entity 10)"
    by (rule reach_loaded_entity) (simp add: VIEWS_BOUND_def)
  have dg: "digits (score_counter ?gs) = replicate SCORE_COUNTER_DIGITS (loaded_entity 10)"
    and sc: "score ?gs = 42"
    by (simp_all add: example_counter_state_def)
  have n10: "num_views (loaded_entity 10) = 10" by (simp add: loaded_entity_def)
  have h1: "\<forall>d \<in> set (digits (score_counter ?gs)). num_views d = 10 \<and> reach d"
    using r10 n10 by (simp add: dg)
  have h3: "score ?gs < 10 ^ 5 \<and> length (digits (score_counter ?gs)) = SCORE_COUNTER_DIGITS"
    by (simp add: dg sc)
  have io: "num_views create_entity < VIEWS_BOUND \<and>
      io_open (example_files ''0.entity'') \<and> io_num (example_files ''0.entity'') = 4 \<and>
      (io_back (example_files ''0.entity'') 2 = CHR 0x0A \<or>
       io_back (example_files ''0.entity'') 2 = CHR 0x0D) \<and>
      (\<forall>m. io_alloc (example_files ''0.entity'') m) \<and>
      eof_to_nul (io_body (example_files ''0.entity'') 1) = CHR 0x00"
    by (simp add: example_files_simps example_io_def eof_to_nul_def create_entity_def
        VIEWS_BOUND_def)
  note U = entity_inv_reachable [of create_entity example_files "''0.entity''" undefined
      2 1 ?gs undefined]
  from U [THEN conjunct2, THEN conjunct2, THEN conjunct2,
      THEN conjunct2, THEN conjunct1,
      rule_format, OF io]
  have a0: "\<exists>e'. add_entity_view_from_file example_files create_entity ''0.entity'' =
      Some (Returned e')" .
  from U [THEN conjunct2, THEN conjunct2, THEN conjunct2,
      THEN conjunct2, THEN conjunct2, THEN conjunct2,
      THEN conjunct2, THEN conjunct2,
      rule_format, OF h3]
  obtain gs' where u: "update_score_counter ?gs = Some gs'"
    by blast
  note A = entity_inv_reachable [of "loaded_entity 10" example_files "''0.entity''" undefined
      2 1 ?gs gs']
  from A [THEN conjunct1, rule_format, OF r10]
  have i10: "entity_inv (loaded_entity 10)" .
  have h2: "\<forall>d \<in> set (digits (score_counter ?gs)). num_views d = 10 \<and> entity_inv d"
    using i10 n10 by (simp add: dg)
  note B = entity_inv_reachable [of create_entity example_files "''0.entity''" "loaded_entity 1"
      2 1 ?gs gs']
  from B [THEN conjunct2, THEN conjunct1]
    B [THEN conjunct2, THEN conjunct2, THEN conjunct2,
      THEN conjunct1,
      rule_format, OF conjI, OF _ a]
  have e1: "reach (loaded_entity 1) \<and> entity_inv (loaded_entity 1)"
    by simp
  note C = entity_inv_reachable [of "loaded_entity 1" example_files "''0.entity''" undefined
      2 1 ?gs gs']
  from C [THEN conjunct2, THEN conjunct2, THEN conjunct2,
      THEN conjunct2, THEN conjunct2, THEN conjunct1,
      rule_format, OF n1] e1
  have e2: "\<exists>e2. next_entity_view (loaded_entity 1) = Some e2 \<and> reach e2 \<and> entity_inv e2"
    by blast
  from A [THEN conjunct2, THEN conjunct2, THEN conjunct2,
      THEN conjunct2, THEN conjunct2, THEN conjunct2,
      THEN conjunct1,
      rule_format, OF conjI, OF h2 u]
  have d1: "\<forall>d \<in> set (digits (score_counter gs')). num_views d = 10 \<and> entity_inv d"
    by blast
  from A [THEN conjunct2, THEN conjunct2, THEN conjunct2,
      THEN conjunct2, THEN conjunct2, THEN conjunct2,
      THEN conjunct2, THEN conjunct1,
      rule_format, OF conjI, OF h1 u]
  have d2: "\<forall>d \<in> set (digits (score_counter gs')). reach d"
    by blast
  from d1 d2
  have d: "\<forall>d \<in> set (digits (score_counter gs')). num_views d = 10 \<and> entity_inv d \<and> reach d"
    by blast
  from a a0 e1 e2 r10 i10 u d show ?thesis by blast
qed

section \<open>Verification: periodic timers\<close>

lemma timers_loop_const:
  "distinct js \<Longrightarrow> \<forall>j \<in> set js. j < length ts \<Longrightarrow>
   \<exists>ts'. timers_loop (\<lambda>n. now) js (gs, ts, k, fired) =
       Some (fold (\<lambda>i. callback (ts ! i)) (filter (\<lambda>i. due now (ts ! i)) js) gs, ts',
             k + length js + length (filter (\<lambda>i. due now (ts ! i)) js),
             fired @ filter (\<lambda>i. due now (ts ! i)) js) \<and>
     length ts' = length ts \<and>
     (\<forall>i < length ts. ts' ! i =
        (if i \<in> set js \<and> due now (ts ! i) then (ts ! i)\<lparr>last_trigger_time := now\<rparr>
         else ts ! i))"
proof (induction js arbitrary: gs ts k fired)
  case Nil
  then show ?case by simp
next
  case (Cons j js)
  from Cons.prems have j: "j < length ts" and nj: "j \<notin> set js" and dj: "distinct js"
    and bj: "\<forall>i \<in> set js. i < length ts"
    by auto
  show ?case
  proof (cases "due now (ts ! j)")
    case False
    from Cons.IH [OF dj bj, of gs "Suc k" fired] False j
    show ?thesis by (auto simp: due_def)
  next
    case True
    let ?ts1 = "ts[j := (ts ! j)\<lparr>last_trigger_time := now\<rparr>]"
    have same: "\<forall>i \<in> set js. ?ts1 ! i = ts ! i"
      using nj by (metis nth_list_update_neq)
    then have f: "filter (\<lambda>i. due now (?ts1 ! i)) js = filter (\<lambda>i. due now (ts ! i)) js"
      by (auto intro: filter_cong)
    have g: "fold (\<lambda>i. callback (?ts1 ! i)) (filter (\<lambda>i. due now (ts ! i)) js) g0 =
             fold (\<lambda>i. callback (ts ! i)) (filter (\<lambda>i. due now (ts ! i)) js) g0" for g0
      using same by (intro fold_cong) auto
    have b1: "\<forall>i \<in> set js. i < length ?ts1" using bj by simp
    from Cons.IH [OF dj b1, of "callback (ts ! j) gs" "Suc (Suc k)" "fired @ [j]"]
    obtain ts' where
      r: "timers_loop (\<lambda>n. now) js (callback (ts ! j) gs, ?ts1, Suc (Suc k), fired @ [j]) =
       Some (fold (\<lambda>i. callback (ts ! i)) (filter (\<lambda>i. due now (ts ! i)) js)
               (callback (ts ! j) gs), ts',
             Suc (Suc k) + length js + length (filter (\<lambda>i. due now (ts ! i)) js),
             (fired @ [j]) @ filter (\<lambda>i. due now (ts ! i)) js)"
      and l: "length ts' = length ?ts1"
      and c: "\<forall>i < length ?ts1. ts' ! i =
        (if i \<in> set js \<and> due now (?ts1 ! i) then (?ts1 ! i)\<lparr>last_trigger_time := now\<rparr>
         else ?ts1 ! i)"
      unfolding f g by blast
    have "timers_loop (\<lambda>n. now) (j # js) (gs, ts, k, fired) =
       Some (fold (\<lambda>i. callback (ts ! i)) (filter (\<lambda>i. due now (ts ! i)) (j # js)) gs, ts',
             k + length (j # js) + length (filter (\<lambda>i. due now (ts ! i)) (j # js)),
             fired @ filter (\<lambda>i. due now (ts ! i)) (j # js))"
      using True j r by (simp add: due_def)
    moreover have "length ts' = length ts" using l by simp
    moreover have "\<forall>i < length ts. ts' ! i =
        (if i \<in> set (j # js) \<and> due now (ts ! i) then (ts ! i)\<lparr>last_trigger_time := now\<rparr>
         else ts ! i)"
    proof (intro allI impI)
      fix i assume i: "i < length ts"
      show "ts' ! i =
        (if i \<in> set (j # js) \<and> due now (ts ! i) then (ts ! i)\<lparr>last_trigger_time := now\<rparr>
         else ts ! i)"
      proof (cases "i = j")
        case True
        with c i nj \<open>due now (ts ! j)\<close> show ?thesis by simp
      next
        case False
        with c i show ?thesis by (simp add: nth_list_update)
      qed
    qed
    ultimately show ?thesis by blast
  qed
qed

lemma count_list_filter_upt:
  "count_list (filter P [0..<n]) i = (if i < n \<and> P i then 1 else 0)"
  by (induction n) auto

lemma timers_loop_clock:
  "distinct js \<Longrightarrow> \<forall>j \<in> set js. j < length ts \<Longrightarrow>
   \<exists>gs' ts' k' fired'.
     timers_loop clk js (gs, ts, k, fired) = Some (gs', ts', k', fired @ fired') \<and>
     length ts' = length ts \<and> set fired' \<subseteq> set js \<and> distinct fired' \<and>
     (\<forall>i < length ts.
        (i \<in> set fired' \<longrightarrow>
           (\<exists>n \<ge> k. due (clk n) (ts ! i) \<and>
              ts' ! i = (ts ! i)\<lparr>last_trigger_time := clk (Suc n)\<rparr>)) \<and>
        (i \<notin> set fired' \<longrightarrow> ts' ! i = ts ! i \<and>
           (i \<in> set js \<longrightarrow> (\<exists>n \<ge> k. \<not> due (clk n) (ts ! i)))))"
proof (induction js arbitrary: gs ts k fired)
  case Nil
  then show ?case by simp
next
  case (Cons j js)
  from Cons.prems have j: "j < length ts" and nj: "j \<notin> set js" and dj: "distinct js"
    and bj: "\<forall>i \<in> set js. i < length ts"
    by auto
  show ?case
  proof (cases "due (clk k) (ts ! j)")
    case False
    from Cons.IH [OF dj bj, of gs "Suc k" fired] obtain gs' ts' k' fired' where
      r: "timers_loop clk js (gs, ts, Suc k, fired) = Some (gs', ts', k', fired @ fired')"
      and l: "length ts' = length ts" and s: "set fired' \<subseteq> set js" and d: "distinct fired'"
      and c: "\<forall>i < length ts.
        (i \<in> set fired' \<longrightarrow>
           (\<exists>n \<ge> Suc k. due (clk n) (ts ! i) \<and>
              ts' ! i = (ts ! i)\<lparr>last_trigger_time := clk (Suc n)\<rparr>)) \<and>
        (i \<notin> set fired' \<longrightarrow> ts' ! i = ts ! i \<and>
           (i \<in> set js \<longrightarrow> (\<exists>n \<ge> Suc k. \<not> due (clk n) (ts ! i))))"
      by blast
    have a1: "timers_loop clk (j # js) (gs, ts, k, fired) = Some (gs', ts', k', fired @ fired')"
      using False j r by (simp add: due_def)
    have a2: "set fired' \<subseteq> set (j # js)" using s by auto
    have a3: "\<forall>i < length ts.
        (i \<in> set fired' \<longrightarrow>
           (\<exists>n \<ge> k. due (clk n) (ts ! i) \<and>
              ts' ! i = (ts ! i)\<lparr>last_trigger_time := clk (Suc n)\<rparr>)) \<and>
        (i \<notin> set fired' \<longrightarrow> ts' ! i = ts ! i \<and>
           (i \<in> set (j # js) \<longrightarrow> (\<exists>n \<ge> k. \<not> due (clk n) (ts ! i))))"
    proof (intro allI impI conjI)
      fix i assume i: "i < length ts" and "i \<in> set fired'"
      with c obtain n where "Suc k \<le> n" "due (clk n) (ts ! i)"
        "ts' ! i = (ts ! i)\<lparr>last_trigger_time := clk (Suc n)\<rparr>"
        by blast
      then have "k \<le> n \<and> due (clk n) (ts ! i) \<and>
        ts' ! i = (ts ! i)\<lparr>last_trigger_time := clk (Suc n)\<rparr>"
        by simp
      then show "\<exists>n \<ge> k. due (clk n) (ts ! i) \<and>
        ts' ! i = (ts ! i)\<lparr>last_trigger_time := clk (Suc n)\<rparr>"
        by blast
    next
      fix i assume "i < length ts" and "i \<notin> set fired'"
      with c show "ts' ! i = ts ! i" by blast
    next
      fix i assume i: "i < length ts" and ni: "i \<notin> set fired'" and m: "i \<in> set (j # js)"
      show "\<exists>n \<ge> k. \<not> due (clk n) (ts ! i)"
      proof (cases "i = j")
        case True
        with False show ?thesis by blast
      next
        case False
        with m have "i \<in> set js" by simp
        with c i ni obtain n where "Suc k \<le> n" "\<not> due (clk n) (ts ! i)" by blast
        then have "k \<le> n \<and> \<not> due (clk n) (ts ! i)" by simp
        then show ?thesis by blast
      qed
    qed
    show ?thesis
      by (rule exI [of _ gs'], rule exI [of _ ts'], rule exI [of _ k'], rule exI [of _ fired'])
        (intro conjI a1 l a2 d a3)
  next
    case True
    let ?ts1 = "ts[j := (ts ! j)\<lparr>last_trigger_time := clk (Suc k)\<rparr>]"
    have b1: "\<forall>i \<in> set js. i < length ?ts1" using bj by simp
    from Cons.IH [OF dj b1, of "callback (ts ! j) gs" "Suc (Suc k)" "fired @ [j]"]
    obtain gs' ts' k' fired' where
      r: "timers_loop clk js (callback (ts ! j) gs, ?ts1, Suc (Suc k), fired @ [j]) =
            Some (gs', ts', k', (fired @ [j]) @ fired')"
      and l: "length ts' = length ?ts1" and s: "set fired' \<subseteq> set js" and d: "distinct fired'"
      and c: "\<forall>i < length ?ts1.
        (i \<in> set fired' \<longrightarrow>
           (\<exists>n \<ge> Suc (Suc k). due (clk n) (?ts1 ! i) \<and>
              ts' ! i = (?ts1 ! i)\<lparr>last_trigger_time := clk (Suc n)\<rparr>)) \<and>
        (i \<notin> set fired' \<longrightarrow> ts' ! i = ?ts1 ! i \<and>
           (i \<in> set js \<longrightarrow> (\<exists>n \<ge> Suc (Suc k). \<not> due (clk n) (?ts1 ! i))))"
      by blast
    from s nj have jf: "j \<notin> set fired'" by auto
    have a1: "timers_loop clk (j # js) (gs, ts, k, fired) =
            Some (gs', ts', k', fired @ (j # fired'))"
      using True j r by (simp add: due_def)
    have a2: "length ts' = length ts" using l by simp
    have a3: "set (j # fired') \<subseteq> set (j # js)" using s by auto
    have a4: "distinct (j # fired')" using d jf by simp
    have a5: "\<forall>i < length ts.
        (i \<in> set (j # fired') \<longrightarrow>
           (\<exists>n \<ge> k. due (clk n) (ts ! i) \<and>
              ts' ! i = (ts ! i)\<lparr>last_trigger_time := clk (Suc n)\<rparr>)) \<and>
        (i \<notin> set (j # fired') \<longrightarrow> ts' ! i = ts ! i \<and>
           (i \<in> set (j # js) \<longrightarrow> (\<exists>n \<ge> k. \<not> due (clk n) (ts ! i))))"
    proof (intro allI impI)
      fix i assume i: "i < length ts"
      then have i1: "i < length ?ts1" by simp
      show "(i \<in> set (j # fired') \<longrightarrow>
           (\<exists>n \<ge> k. due (clk n) (ts ! i) \<and>
              ts' ! i = (ts ! i)\<lparr>last_trigger_time := clk (Suc n)\<rparr>)) \<and>
        (i \<notin> set (j # fired') \<longrightarrow> ts' ! i = ts ! i \<and>
           (i \<in> set (j # js) \<longrightarrow> (\<exists>n \<ge> k. \<not> due (clk n) (ts ! i))))"
      proof (cases "i = j")
        case True
        from j have "j < length ?ts1" by simp
        from c [rule_format, OF this] jf have "ts' ! j = ?ts1 ! j" by simp
        with j have "ts' ! j = (ts ! j)\<lparr>last_trigger_time := clk (Suc k)\<rparr>" by simp
        with \<open>due (clk k) (ts ! j)\<close> have "k \<le> k \<and> due (clk k) (ts ! j) \<and>
          ts' ! j = (ts ! j)\<lparr>last_trigger_time := clk (Suc k)\<rparr>"
          by simp
        then have "\<exists>n \<ge> k. due (clk n) (ts ! j) \<and>
          ts' ! j = (ts ! j)\<lparr>last_trigger_time := clk (Suc n)\<rparr>"
          by blast
        with True show ?thesis by simp
      next
        case False
        then have e: "?ts1 ! i = ts ! i" by simp
        from c [rule_format, OF i1] have ci: "(i \<in> set fired' \<longrightarrow>
           (\<exists>n \<ge> Suc (Suc k). due (clk n) (ts ! i) \<and>
              ts' ! i = (ts ! i)\<lparr>last_trigger_time := clk (Suc n)\<rparr>)) \<and>
          (i \<notin> set fired' \<longrightarrow> ts' ! i = ts ! i \<and>
           (i \<in> set js \<longrightarrow> (\<exists>n \<ge> Suc (Suc k). \<not> due (clk n) (ts ! i))))"
          by (simp only: e)
        show ?thesis
        proof (intro conjI impI)
          assume "i \<in> set (j # fired')"
          with False have "i \<in> set fired'" by simp
          with ci obtain n where "Suc (Suc k) \<le> n" "due (clk n) (ts ! i)"
            "ts' ! i = (ts ! i)\<lparr>last_trigger_time := clk (Suc n)\<rparr>"
            by blast
          then have "k \<le> n \<and> due (clk n) (ts ! i) \<and>
            ts' ! i = (ts ! i)\<lparr>last_trigger_time := clk (Suc n)\<rparr>"
            by simp
          then show "\<exists>n \<ge> k. due (clk n) (ts ! i) \<and>
            ts' ! i = (ts ! i)\<lparr>last_trigger_time := clk (Suc n)\<rparr>"
            by blast
        next
          assume "i \<notin> set (j # fired')"
          then have "i \<notin> set fired'" by simp
          with ci show "ts' ! i = ts ! i" by blast
        next
          assume "i \<notin> set (j # fired')" and "i \<in> set (j # js)"
          with False have "i \<notin> set fired'" "i \<in> set js" by simp_all
          with ci obtain n where "Suc (Suc k) \<le> n" "\<not> due (clk n) (ts ! i)" by blast
          then have "k \<le> n \<and> \<not> due (clk n) (ts ! i)" by simp
          then show "\<exists>n \<ge> k. \<not> due (clk n) (ts ! i)" by blast
        qed
      qed
    qed
    show ?thesis
      by (rule exI [of _ gs'], rule exI [of _ ts'], rule exI [of _ k'],
          rule exI [of _ "j # fired'"]) (intro conjI a1 a2 a3 a4 a5)
  qed
qed

text \<open>
  C9. One pass of \<open>run_periodic_timers\<close> over a timer array, with the clock reading
  \<open>now\<close> throughout, returns; the game state is the initial one after the callbacks of
  the invoked timers, in order; a timer's callback is invoked exactly once if
  \<open>now - last_trigger_time > period\<close> and not at all otherwise, however many periods
  have elapsed; the trigger time of an invoked timer becomes \<open>now\<close> and that of any
  other timer is unchanged. For any clock whatever, no timer is invoked twice in a pass:
  a timer is invoked when a reading of the clock exceeded its trigger time by more than
  its period, and its trigger time becomes the next reading; a timer not invoked is
  unchanged.
\<close>

theorem run_periodic_timers_once:
  assumes "periodic_timer_count = length ts"
  shows "(\<exists>gs' ts' k' fired.
            run_periodic_timers gs ts periodic_timer_count (\<lambda>n. now) k =
              Some (gs', ts', k', fired) \<and>
            gs' = fold (\<lambda>i. callback (ts ! i)) fired gs \<and>
            length ts' = length ts \<and>
            (\<forall>i < length ts.
               count_list fired i =
                 (if now - last_trigger_time (ts ! i) > period (ts ! i) then 1 else 0) \<and>
               last_trigger_time (ts' ! i) =
                 (if now - last_trigger_time (ts ! i) > period (ts ! i) then now
                  else last_trigger_time (ts ! i)) \<and>
               period (ts' ! i) = period (ts ! i))) \<and>
         (\<exists>gs' ts' k' fired.
            run_periodic_timers gs ts periodic_timer_count clk k =
              Some (gs', ts', k', fired) \<and>
            length ts' = length ts \<and> distinct fired \<and>
            (\<forall>i < length ts.
               (i \<in> set fired \<longrightarrow>
                  (\<exists>n \<ge> k. clk n - last_trigger_time (ts ! i) > period (ts ! i) \<and>
                     ts' ! i = (ts ! i)\<lparr>last_trigger_time := clk (Suc n)\<rparr>)) \<and>
               (i \<notin> set fired \<longrightarrow> ts' ! i = ts ! i \<and>
                  (\<exists>n \<ge> k. \<not> clk n - last_trigger_time (ts ! i) > period (ts ! i)))))"
proof -
  have b: "\<forall>j \<in> set [0..<length ts]. j < length ts" by simp
  from timers_loop_const [OF distinct_upt b, of now gs k "[]"] obtain ts' where
    r: "timers_loop (\<lambda>n. now) [0..<length ts] (gs, ts, k, []) =
       Some (fold (\<lambda>i. callback (ts ! i)) (filter (\<lambda>i. due now (ts ! i)) [0..<length ts]) gs,
             ts',
             k + length [0..<length ts] +
               length (filter (\<lambda>i. due now (ts ! i)) [0..<length ts]),
             [] @ filter (\<lambda>i. due now (ts ! i)) [0..<length ts])"
    and l: "length ts' = length ts"
    and c: "\<forall>i < length ts. ts' ! i =
        (if i \<in> set [0..<length ts] \<and> due now (ts ! i)
         then (ts ! i)\<lparr>last_trigger_time := now\<rparr> else ts ! i)"
    by blast
  have 1: "\<exists>gs' ts' k' fired.
            run_periodic_timers gs ts periodic_timer_count (\<lambda>n. now) k =
              Some (gs', ts', k', fired) \<and>
            gs' = fold (\<lambda>i. callback (ts ! i)) fired gs \<and>
            length ts' = length ts \<and>
            (\<forall>i < length ts.
               count_list fired i =
                 (if now - last_trigger_time (ts ! i) > period (ts ! i) then 1 else 0) \<and>
               last_trigger_time (ts' ! i) =
                 (if now - last_trigger_time (ts ! i) > period (ts ! i) then now
                  else last_trigger_time (ts ! i)) \<and>
               period (ts' ! i) = period (ts ! i))"
    unfolding run_periodic_timers_def assms r
    using l c by (simp add: count_list_filter_upt due_def)
  from timers_loop_clock [OF distinct_upt b, of clk gs k "[]"] obtain gs2 ts2 k2 fired2 where
    r2: "timers_loop clk [0..<length ts] (gs, ts, k, []) = Some (gs2, ts2, k2, [] @ fired2)"
    and l2: "length ts2 = length ts" and d2: "distinct fired2"
    and c2: "\<forall>i < length ts.
        (i \<in> set fired2 \<longrightarrow>
           (\<exists>n \<ge> k. due (clk n) (ts ! i) \<and>
              ts2 ! i = (ts ! i)\<lparr>last_trigger_time := clk (Suc n)\<rparr>)) \<and>
        (i \<notin> set fired2 \<longrightarrow> ts2 ! i = ts ! i \<and>
           (i \<in> set [0..<length ts] \<longrightarrow> (\<exists>n \<ge> k. \<not> due (clk n) (ts ! i))))"
    by (elim exE conjE) (rule that)
  have e2: "run_periodic_timers gs ts periodic_timer_count clk k = Some (gs2, ts2, k2, fired2)"
    unfolding run_periodic_timers_def assms using r2 by simp
  have c3: "\<forall>i < length ts.
               (i \<in> set fired2 \<longrightarrow>
                  (\<exists>n \<ge> k. clk n - last_trigger_time (ts ! i) > period (ts ! i) \<and>
                     ts2 ! i = (ts ! i)\<lparr>last_trigger_time := clk (Suc n)\<rparr>)) \<and>
               (i \<notin> set fired2 \<longrightarrow> ts2 ! i = ts ! i \<and>
                  (\<exists>n \<ge> k. \<not> clk n - last_trigger_time (ts ! i) > period (ts ! i)))"
    using c2 by (simp add: due_def)
  have 2: "\<exists>gs' ts' k' fired.
            run_periodic_timers gs ts periodic_timer_count clk k =
              Some (gs', ts', k', fired) \<and>
            length ts' = length ts \<and> distinct fired \<and>
            (\<forall>i < length ts.
               (i \<in> set fired \<longrightarrow>
                  (\<exists>n \<ge> k. clk n - last_trigger_time (ts ! i) > period (ts ! i) \<and>
                     ts' ! i = (ts ! i)\<lparr>last_trigger_time := clk (Suc n)\<rparr>)) \<and>
               (i \<notin> set fired \<longrightarrow> ts' ! i = ts ! i \<and>
                  (\<exists>n \<ge> k. \<not> clk n - last_trigger_time (ts ! i) > period (ts ! i))))"
    by (rule exI [of _ gs2], rule exI [of _ ts2], rule exI [of _ k2], rule exI [of _ fired2])
      (intro conjI e2 l2 d2 c3)
  from 1 2 show ?thesis by blast
qed

theorem run_periodic_timers_once_witness:
  "\<exists>gs' ts' k' fired.
     run_periodic_timers (0::nat) example_timers 3 (\<lambda>n. 100) 0 = Some (gs', ts', k', fired) \<and>
     count_list fired 0 = 1 \<and> count_list fired 1 = 0 \<and> count_list fired 2 = 1 \<and>
     last_trigger_time (ts' ! 0) = 100 \<and> last_trigger_time (ts' ! 1) = 0 \<and>
     last_trigger_time (ts' ! 2) = 100"
proof -
  have h: "3 = length example_timers" by (simp add: example_timers_def)
  from run_periodic_timers_once [OF h, of 0 100 0 "\<lambda>n. 100"] obtain gs' ts' k' fired where
    r: "run_periodic_timers (0::nat) example_timers 3 (\<lambda>n. 100) 0 = Some (gs', ts', k', fired)"
    and c: "\<forall>i < length example_timers.
               count_list fired i =
                 (if 100 - last_trigger_time (example_timers ! i) > period (example_timers ! i)
                  then 1 else 0) \<and>
               last_trigger_time (ts' ! i) =
                 (if 100 - last_trigger_time (example_timers ! i) > period (example_timers ! i)
                  then 100 else last_trigger_time (example_timers ! i)) \<and>
               period (ts' ! i) = period (example_timers ! i)"
    by blast
  from c have "\<forall>i \<in> {0, 1, 2}.
               count_list fired i =
                 (if 100 - last_trigger_time (example_timers ! i) > period (example_timers ! i)
                  then 1 else 0) \<and>
               last_trigger_time (ts' ! i) =
                 (if 100 - last_trigger_time (example_timers ! i) > period (example_timers ! i)
                  then 100 else last_trigger_time (example_timers ! i))"
    by (simp add: example_timers_def)
  then have "count_list fired 0 = 1 \<and> count_list fired 1 = 0 \<and> count_list fired 2 = 1 \<and>
     last_trigger_time (ts' ! 0) = 100 \<and> last_trigger_time (ts' ! 1) = 0 \<and>
     last_trigger_time (ts' ! 2) = 100"
    by (simp add: example_timers_def)
  with r show ?thesis by blast
qed

section \<open>Verification: display driver\<close>

lemma frame_ok_iff:
  "frame_ok f \<longleftrightarrow> length f = SCREEN_WIDTH \<and> (\<forall>cx < SCREEN_WIDTH. length (f ! cx) = SCREEN_HEIGHT)"
  by (auto simp: frame_ok_def list_all_length)

lemma frame_ok_set_cell: "frame_ok f \<Longrightarrow> frame_ok (set_cell f cx cy c)"
  by (cases "cx < length f") (auto simp: frame_ok_iff set_cell_def nth_list_update)

lemma set_cell_nth:
  "frame_ok f \<Longrightarrow> cx < SCREEN_WIDTH \<Longrightarrow> cy < SCREEN_HEIGHT \<Longrightarrow> px < SCREEN_WIDTH \<Longrightarrow>
   set_cell f cx cy c ! px ! py = (if px = cx \<and> py = cy then c else f ! px ! py)"
  by (auto simp: frame_ok_iff set_cell_def nth_list_update)

lemma frame_eqI:
  assumes "frame_ok f" and "frame_ok g"
    and "\<And>cx cy. cx < SCREEN_WIDTH \<Longrightarrow> cy < SCREEN_HEIGHT \<Longrightarrow> f ! cx ! cy = g ! cx ! cy"
  shows "f = g"
proof (rule nth_equalityI)
  show "length f = length g" using assms(1,2) by (simp add: frame_ok_iff)
next
  fix cx assume "cx < length f"
  then have cx: "cx < SCREEN_WIDTH" using assms(1) by (simp add: frame_ok_iff)
  show "f ! cx = g ! cx"
  proof (rule nth_equalityI)
    show "length (f ! cx) = length (g ! cx)" using assms(1,2) cx by (simp add: frame_ok_iff)
  next
    fix cy assume "cy < length (f ! cx)"
    then have "cy < SCREEN_HEIGHT" using assms(1) cx by (simp add: frame_ok_iff)
    with cx show "f ! cx ! cy = g ! cx ! cy" by (rule assms(3))
  qed
qed

lemma fold_rows_cells:
  "fold (\<lambda>cy. fold (flush_cell nxt cy) xs) ys st =
   fold (flush_at nxt) (concat (map (\<lambda>cy. map (\<lambda>cx. (cx, cy)) xs) ys)) st"
proof (induction ys arbitrary: st)
  case Nil
  then show ?case by simp
next
  case (Cons cy ys)
  have "fold (flush_at nxt) (map (\<lambda>cx. (cx, cy)) xs) st = fold (flush_cell nxt cy) xs st"
    by (simp add: fold_map comp_def flush_at_def)
  with Cons show ?case by simp
qed

lemma set_scan_cells: "set scan_cells = {(cx, cy). cx < SCREEN_WIDTH \<and> cy < SCREEN_HEIGHT}"
  by (auto simp: scan_cells_def)

lemma distinct_cells:
  "distinct xs \<Longrightarrow> distinct ys \<Longrightarrow>
   distinct (concat (map (\<lambda>cy. map (\<lambda>cx. (cx, cy)) xs) ys))"
  by (induction ys) (auto simp: distinct_map inj_on_def)

lemma distinct_scan_cells: "distinct scan_cells"
  unfolding scan_cells_def by (rule distinct_cells) simp_all

lemma fold_flush_at:
  "frame_ok cur \<Longrightarrow> distinct cs \<Longrightarrow>
   \<forall>p \<in> set cs. fst p < SCREEN_WIDTH \<and> snd p < SCREEN_HEIGHT \<Longrightarrow>
   \<exists>cur'. fold (flush_at nxt) cs (cur, out) =
             (cur', out @ map (write_of nxt) (filter (differs cur nxt) cs)) \<and>
     frame_ok cur' \<and>
     (\<forall>cx < SCREEN_WIDTH. \<forall>cy < SCREEN_HEIGHT.
        cur' ! cx ! cy = (if (cx, cy) \<in> set cs then nxt ! cx ! cy else cur ! cx ! cy))"
proof (induction cs arbitrary: cur out)
  case Nil
  then show ?case by simp
next
  case (Cons p cs)
  obtain px py where p: "p = (px, py)" by (cases p)
  from Cons.prems p have px: "px < SCREEN_WIDTH" and py: "py < SCREEN_HEIGHT"
    and np: "(px, py) \<notin> set cs" and dc: "distinct cs"
    and bc: "\<forall>q \<in> set cs. fst q < SCREEN_WIDTH \<and> snd q < SCREEN_HEIGHT"
    by auto
  let ?cur1 = "if cur ! px ! py \<noteq> nxt ! px ! py
               then set_cell cur px py (nxt ! px ! py) else cur"
  let ?out1 = "if cur ! px ! py \<noteq> nxt ! px ! py
               then out @ [(px, py, nxt ! px ! py)] else out"
  have step: "flush_at nxt p (cur, out) = (?cur1, ?out1)"
    by (simp add: flush_at_def p)
  have ok1: "frame_ok ?cur1" using Cons.prems(1) by (simp add: frame_ok_set_cell)
  have c1: "\<forall>cx < SCREEN_WIDTH. \<forall>cy < SCREEN_HEIGHT.
      ?cur1 ! cx ! cy = (if (cx, cy) = (px, py) then nxt ! cx ! cy else cur ! cx ! cy)"
    using Cons.prems(1) px py by (auto simp: set_cell_nth)
  have "\<forall>q \<in> set cs. differs ?cur1 nxt q = differs cur nxt q"
  proof
    fix q assume q: "q \<in> set cs"
    with bc have "fst q < SCREEN_WIDTH" "snd q < SCREEN_HEIGHT" by auto
    moreover from q np have "(fst q, snd q) \<noteq> (px, py)" by auto
    ultimately have "?cur1 ! fst q ! snd q = cur ! fst q ! snd q" using c1 by metis
    then show "differs ?cur1 nxt q = differs cur nxt q" by (simp add: differs_def)
  qed
  then have f: "filter (differs ?cur1 nxt) cs = filter (differs cur nxt) cs"
    by (auto intro: filter_cong)
  from Cons.IH [OF ok1 dc bc, of ?out1] obtain cur' where
    r: "fold (flush_at nxt) cs (?cur1, ?out1) =
          (cur', ?out1 @ map (write_of nxt) (filter (differs cur nxt) cs))"
    and ok': "frame_ok cur'"
    and c': "\<forall>cx < SCREEN_WIDTH. \<forall>cy < SCREEN_HEIGHT.
        cur' ! cx ! cy = (if (cx, cy) \<in> set cs then nxt ! cx ! cy else ?cur1 ! cx ! cy)"
    unfolding f by blast
  have "fold (flush_at nxt) (p # cs) (cur, out) =
          (cur', out @ map (write_of nxt) (filter (differs cur nxt) (p # cs)))"
    using r step by (simp add: p differs_def write_of_def)
  moreover have "\<forall>cx < SCREEN_WIDTH. \<forall>cy < SCREEN_HEIGHT.
        cur' ! cx ! cy = (if (cx, cy) \<in> set (p # cs) then nxt ! cx ! cy else cur ! cx ! cy)"
    using c' c1 by (auto simp: p)
  ultimately show ?case using ok' by blast
qed

lemma set_filter_differs:
  "set (filter (differs cur nxt) scan_cells) = differing_cells cur nxt"
  by (auto simp: set_scan_cells differs_def differing_cells_def)

lemma update_display_result:
  assumes "frame_ok (current_frame ds)" and "frame_ok (next_frame ds)"
  shows "update_display ds now =
           (ds\<lparr>current_frame := next_frame ds, last_frame_time := now\<rparr>,
            map (write_of (next_frame ds))
              (filter (differs (current_frame ds) (next_frame ds)) scan_cells))"
proof -
  let ?cur = "current_frame ds" and ?nxt = "next_frame ds"
  have b: "\<forall>p \<in> set scan_cells. fst p < SCREEN_WIDTH \<and> snd p < SCREEN_HEIGHT"
    by (auto simp: set_scan_cells)
  from fold_flush_at [OF assms(1) distinct_scan_cells b, of ?nxt "[]"] obtain cur' where
    r: "fold (flush_at ?nxt) scan_cells (?cur, []) =
          (cur', [] @ map (write_of ?nxt) (filter (differs ?cur ?nxt) scan_cells))"
    and ok: "frame_ok cur'"
    and c: "\<forall>cx < SCREEN_WIDTH. \<forall>cy < SCREEN_HEIGHT.
        cur' ! cx ! cy = (if (cx, cy) \<in> set scan_cells then ?nxt ! cx ! cy else ?cur ! cx ! cy)"
    by blast
  have "cur' = ?nxt"
    using ok assms(2) c by (intro frame_eqI) (auto simp: set_scan_cells)
  with r show ?thesis
    by (simp add: update_display_def fold_rows_cells scan_cells_def [symmetric])
qed

text \<open>
  C2. For two frames of the screen's size that differ in exactly \<open>K\<close> cells,
  \<open>update_display\<close> issues exactly \<open>K\<close> terminal writes, one for each differing cell
  and with the character of the next frame, and afterwards the current frame equals
  the next frame.
\<close>

theorem update_display_writes:
  assumes "frame_ok (current_frame ds)" and "frame_ok (next_frame ds)"
  shows "\<exists>ds' out. update_display ds now = (ds', out) \<and>
     length out = card (differing_cells (current_frame ds) (next_frame ds)) \<and>
     distinct (map (\<lambda>w. (fst w, fst (snd w))) out) \<and>
     (\<forall>w \<in> set out. (fst w, fst (snd w)) \<in> differing_cells (current_frame ds) (next_frame ds) \<and>
        snd (snd w) = next_frame ds ! fst w ! fst (snd w)) \<and>
     current_frame ds' = next_frame ds \<and> next_frame ds' = next_frame ds \<and>
     last_frame_time ds' = now"
proof -
  let ?cs = "filter (differs (current_frame ds) (next_frame ds)) scan_cells"
  let ?out = "map (write_of (next_frame ds)) ?cs"
  have d: "distinct ?cs" using distinct_scan_cells by simp
  have "card (set ?cs) = length ?cs" using d by (rule distinct_card)
  then have "length ?out = card (set ?cs)" by (simp only: length_map)
  then have 1: "length ?out = card (differing_cells (current_frame ds) (next_frame ds))"
    by (simp only: set_filter_differs)
  have "map (\<lambda>w. (fst w, fst (snd w))) ?out = ?cs"
    by (simp add: write_of_def comp_def)
  with d have 2: "distinct (map (\<lambda>w. (fst w, fst (snd w))) ?out)" by simp
  have 3: "\<forall>w \<in> set ?out.
        (fst w, fst (snd w)) \<in> differing_cells (current_frame ds) (next_frame ds) \<and>
        snd (snd w) = next_frame ds ! fst w ! fst (snd w)"
    unfolding set_filter_differs [symmetric] by (auto simp: write_of_def)
  from 1 2 3 show ?thesis
    unfolding update_display_result [OF assms] by simp
qed

lemma frame_ok_blank: "frame_ok blank_frame"
  by (simp add: frame_ok_iff blank_frame_def)

lemma blank_frame_nth:
  "cx < SCREEN_WIDTH \<Longrightarrow> cy < SCREEN_HEIGHT \<Longrightarrow> blank_frame ! cx ! cy = CHR '' ''"
  by (simp add: blank_frame_def)

lemma example_display_differing:
  "differing_cells (current_frame example_display) (next_frame example_display) = {(3, 4)}"
proof -
  have "3 < SCREEN_WIDTH" "4 < SCREEN_HEIGHT"
    by (simp_all add: SCREEN_WIDTH_def SCREEN_HEIGHT_def)
  then show ?thesis
    by (auto simp: differing_cells_def example_display_def set_cell_nth frame_ok_blank
        blank_frame_nth split: if_splits)
qed

theorem update_display_writes_witness:
  "\<exists>ds' out. update_display example_display 1000 = (ds', out) \<and>
     length out = 1 \<and> current_frame ds' = set_cell blank_frame 3 4 CHR ''X'' \<and>
     last_frame_time ds' = 1000"
proof -
  have h: "frame_ok (current_frame example_display)" "frame_ok (next_frame example_display)"
    by (simp_all add: example_display_def frame_ok_blank frame_ok_set_cell)
  from update_display_writes [OF h, of 1000] show ?thesis
    by (auto simp: example_display_differing) (simp add: example_display_def)
qed

section \<open>Verification: frame renderer\<close>

lemma frame_ok_render_chars:
  "frame_ok f \<Longrightarrow> frame_ok (render_chars sx cs px py f)"
  by (induction cs arbitrary: px py f) (simp_all add: frame_ok_set_cell)

lemma frame_ok_render_entity:
  "frame_ok f \<Longrightarrow> render_entity e f = Some f' \<Longrightarrow> frame_ok f'"
  by (auto simp: render_entity_def Let_def frame_ok_render_chars split: if_splits)

lemma frame_ok_render_loop:
  "frame_ok f \<Longrightarrow> render_loop gs js f = Some f' \<Longrightarrow> frame_ok f'"
proof (induction js arbitrary: f)
  case Nil
  then show ?case by simp
next
  case (Cons j js)
  then show ?case
    by (auto split: if_splits option.splits dest: frame_ok_render_entity)
qed

lemma render_entity_defined:
  "renderable e \<Longrightarrow> \<exists>f'. render_entity e f = Some f'"
  by (auto simp: renderable_def render_entity_def Let_def)

lemma render_loop_defined:
  "\<forall>j \<in> set js. j < ARRAY_BOUND \<and>
      (case deref gs (entities gs ! j) of None \<Rightarrow> False | Some e \<Rightarrow> renderable e) \<Longrightarrow>
   \<exists>f'. render_loop gs js f = Some f'"
proof (induction js arbitrary: f)
  case Nil
  then show ?case by simp
next
  case (Cons j js)
  from Cons.prems obtain e where j: "j < ARRAY_BOUND"
    and e: "deref gs (entities gs ! j) = Some e" and re: "renderable e"
    by (auto split: option.splits)
  from render_entity_defined [OF re] obtain f1 where f1: "render_entity e f = Some f1"
    by blast
  from Cons.IH [of f1] Cons.prems obtain f' where "render_loop gs js f1 = Some f'"
    by auto
  with j e f1 show ?case by simp
qed

lemma fold_rows_border:
  "frame_ok f \<Longrightarrow> \<forall>cx \<in> set xs. cx < SCREEN_WIDTH \<Longrightarrow>
   frame_ok (fold (\<lambda>cx g. set_cell (set_cell g cx 0 CHR ''='') cx (SCREEN_HEIGHT - 1) CHR ''='')
               xs f) \<and>
   (\<forall>px < SCREEN_WIDTH. \<forall>py < SCREEN_HEIGHT.
      fold (\<lambda>cx g. set_cell (set_cell g cx 0 CHR ''='') cx (SCREEN_HEIGHT - 1) CHR ''='')
        xs f ! px ! py =
      (if px \<in> set xs \<and> (py = 0 \<or> py = SCREEN_HEIGHT - 1) then CHR ''='' else f ! px ! py))"
proof (induction xs arbitrary: f)
  case Nil
  then show ?case by simp
next
  case (Cons cx xs)
  let ?f1 = "set_cell (set_cell f cx 0 CHR ''='') cx (SCREEN_HEIGHT - 1) CHR ''=''"
  have h: "0 < SCREEN_HEIGHT" "SCREEN_HEIGHT - 1 < SCREEN_HEIGHT"
    by (simp_all add: SCREEN_HEIGHT_def)
  from Cons.prems have cx: "cx < SCREEN_WIDTH" and b: "\<forall>c \<in> set xs. c < SCREEN_WIDTH"
    by auto
  have ok1: "frame_ok ?f1" using Cons.prems(1) by (simp add: frame_ok_set_cell)
  have c1: "\<forall>px < SCREEN_WIDTH. \<forall>py < SCREEN_HEIGHT. ?f1 ! px ! py =
      (if px = cx \<and> (py = 0 \<or> py = SCREEN_HEIGHT - 1) then CHR ''='' else f ! px ! py)"
    using Cons.prems(1) cx h by (auto simp: set_cell_nth frame_ok_set_cell)
  from Cons.IH [OF ok1 b] c1 show ?case by auto
qed

lemma fold_cols_border:
  "frame_ok f \<Longrightarrow> \<forall>cy \<in> set ys. cy < SCREEN_HEIGHT \<Longrightarrow>
   frame_ok (fold (\<lambda>cy g. set_cell (set_cell g 0 cy CHR ''|'') (SCREEN_WIDTH - 1) cy CHR ''|'')
               ys f) \<and>
   (\<forall>px < SCREEN_WIDTH. \<forall>py < SCREEN_HEIGHT.
      fold (\<lambda>cy g. set_cell (set_cell g 0 cy CHR ''|'') (SCREEN_WIDTH - 1) cy CHR ''|'')
        ys f ! px ! py =
      (if py \<in> set ys \<and> (px = 0 \<or> px = SCREEN_WIDTH - 1) then CHR ''|'' else f ! px ! py))"
proof (induction ys arbitrary: f)
  case Nil
  then show ?case by simp
next
  case (Cons cy ys)
  let ?f1 = "set_cell (set_cell f 0 cy CHR ''|'') (SCREEN_WIDTH - 1) cy CHR ''|''"
  have h: "0 < SCREEN_WIDTH" "SCREEN_WIDTH - 1 < SCREEN_WIDTH"
    by (simp_all add: SCREEN_WIDTH_def)
  from Cons.prems have cy: "cy < SCREEN_HEIGHT" and b: "\<forall>c \<in> set ys. c < SCREEN_HEIGHT"
    by auto
  have ok1: "frame_ok ?f1" using Cons.prems(1) by (simp add: frame_ok_set_cell)
  have c1: "\<forall>px < SCREEN_WIDTH. \<forall>py < SCREEN_HEIGHT. ?f1 ! px ! py =
      (if py = cy \<and> (px = 0 \<or> px = SCREEN_WIDTH - 1) then CHR ''|'' else f ! px ! py)"
    using Cons.prems(1) cy h by (auto simp: set_cell_nth frame_ok_set_cell)
  from Cons.IH [OF ok1 b] c1 show ?case by auto
qed

lemma draw_border_cells:
  assumes "frame_ok f"
  shows "frame_ok (draw_border f) \<and>
   (\<forall>px < SCREEN_WIDTH. \<forall>py < SCREEN_HEIGHT.
      draw_border f ! px ! py =
        (if px = 0 \<or> px = SCREEN_WIDTH - 1 then CHR ''|''
         else if py = 0 \<or> py = SCREEN_HEIGHT - 1 then CHR ''=''
         else f ! px ! py))"
proof -
  let ?g = "fold (\<lambda>cx g. set_cell (set_cell g cx 0 CHR ''='') cx (SCREEN_HEIGHT - 1) CHR ''='')
              [0..<SCREEN_WIDTH] f"
  from fold_rows_border [OF assms, of "[0..<SCREEN_WIDTH]"] have
    okg: "frame_ok ?g"
    and cg: "\<forall>px < SCREEN_WIDTH. \<forall>py < SCREEN_HEIGHT. ?g ! px ! py =
      (if py = 0 \<or> py = SCREEN_HEIGHT - 1 then CHR ''='' else f ! px ! py)"
    by auto
  from fold_cols_border [OF okg, of "[0..<SCREEN_HEIGHT]"] cg show ?thesis
    unfolding draw_border_def by auto
qed

lemma render_next_frame_cells:
  assumes "render_next_frame ds gs = Some ds'"
  shows "frame_ok (next_frame ds')"
    and "cy < SCREEN_HEIGHT \<Longrightarrow> next_frame ds' ! 0 ! cy = CHR ''|''"
    and "cy < SCREEN_HEIGHT \<Longrightarrow> next_frame ds' ! (SCREEN_WIDTH - 1) ! cy = CHR ''|''"
    and "0 < cx \<Longrightarrow> cx < SCREEN_WIDTH - 1 \<Longrightarrow> next_frame ds' ! cx ! 0 = CHR ''=''"
    and "0 < cx \<Longrightarrow> cx < SCREEN_WIDTH - 1 \<Longrightarrow>
         next_frame ds' ! cx ! (SCREEN_HEIGHT - 1) = CHR ''=''"
proof -
  from assms obtain f where f: "render_loop gs [0..<entity_count gs] blank_frame = Some f"
    and d: "next_frame ds' = draw_border f"
    by (auto simp: render_next_frame_def split: option.splits)
  from frame_ok_render_loop [OF frame_ok_blank f] have "frame_ok f" .
  from draw_border_cells [OF this] have ok: "frame_ok (draw_border f)"
    and c: "\<And>px py. px < SCREEN_WIDTH \<Longrightarrow> py < SCREEN_HEIGHT \<Longrightarrow>
      draw_border f ! px ! py =
        (if px = 0 \<or> px = SCREEN_WIDTH - 1 then CHR ''|''
         else if py = 0 \<or> py = SCREEN_HEIGHT - 1 then CHR ''=''
         else f ! px ! py)"
    by blast+
  have h: "0 < SCREEN_WIDTH" "SCREEN_WIDTH - 1 < SCREEN_WIDTH"
    "0 < SCREEN_HEIGHT" "SCREEN_HEIGHT - 1 < SCREEN_HEIGHT"
    by (simp_all add: SCREEN_WIDTH_def SCREEN_HEIGHT_def)
  show "frame_ok (next_frame ds')" using ok d by simp
  show "cy < SCREEN_HEIGHT \<Longrightarrow> next_frame ds' ! 0 ! cy = CHR ''|''"
    using c [of 0 cy] h d by simp
  show "cy < SCREEN_HEIGHT \<Longrightarrow> next_frame ds' ! (SCREEN_WIDTH - 1) ! cy = CHR ''|''"
    using c [of "SCREEN_WIDTH - 1" cy] h d by simp
  show "0 < cx \<Longrightarrow> cx < SCREEN_WIDTH - 1 \<Longrightarrow> next_frame ds' ! cx ! 0 = CHR ''=''"
    using c [of cx 0] h d by simp
  show "0 < cx \<Longrightarrow> cx < SCREEN_WIDTH - 1 \<Longrightarrow>
         next_frame ds' ! cx ! (SCREEN_HEIGHT - 1) = CHR ''=''"
    using c [of cx "SCREEN_HEIGHT - 1"] h d by simp
qed

lemma render_next_frame_defined:
  assumes "entities_renderable gs"
  shows "\<exists>ds'. render_next_frame ds gs = Some ds'"
proof -
  from assms have "\<forall>j \<in> set [0..<entity_count gs]. j < ARRAY_BOUND \<and>
      (case deref gs (entities gs ! j) of None \<Rightarrow> False | Some e \<Rightarrow> renderable e)"
    by (auto simp: entities_renderable_def list_all_iff)
  from render_loop_defined [OF this, of blank_frame] show ?thesis
    by (auto simp: render_next_frame_def)
qed

text \<open>
  C8 (amended). Whatever the registered entities are, when \<open>render_next_frame\<close>
  completes the next frame has the screen's size, the leftmost and the rightmost
  column consist entirely of \<open>|\<close> (the four corners included), and the top and the
  bottom row hold \<open>=\<close> in every cell between the corners: the border is painted after
  the entities, and its columns after its rows. It completes whenever every registered
  entity is hidden or has a loaded active view.
\<close>

theorem render_next_frame_border:
  "(render_next_frame ds gs = Some ds' \<longrightarrow>
      frame_ok (next_frame ds') \<and>
      (\<forall>cx. 0 < cx \<and> cx < SCREEN_WIDTH - 1 \<longrightarrow>
         next_frame ds' ! cx ! 0 = CHR ''='' \<and>
         next_frame ds' ! cx ! (SCREEN_HEIGHT - 1) = CHR ''='') \<and>
      (\<forall>cy < SCREEN_HEIGHT.
         next_frame ds' ! 0 ! cy = CHR ''|'' \<and>
         next_frame ds' ! (SCREEN_WIDTH - 1) ! cy = CHR ''|'')) \<and>
   (entities_renderable gs \<longrightarrow> render_next_frame ds gs \<noteq> None)"
proof -
  have h: "0 < SCREEN_WIDTH" "0 < SCREEN_HEIGHT"
    by (simp_all add: SCREEN_WIDTH_def SCREEN_HEIGHT_def)
  have 1: "render_next_frame ds gs = Some ds' \<longrightarrow>
      frame_ok (next_frame ds') \<and>
      (\<forall>cx. 0 < cx \<and> cx < SCREEN_WIDTH - 1 \<longrightarrow>
         next_frame ds' ! cx ! 0 = CHR ''='' \<and>
         next_frame ds' ! cx ! (SCREEN_HEIGHT - 1) = CHR ''='') \<and>
      (\<forall>cy < SCREEN_HEIGHT.
         next_frame ds' ! 0 ! cy = CHR ''|'' \<and>
         next_frame ds' ! (SCREEN_WIDTH - 1) ! cy = CHR ''|'')"
    by (blast intro: render_next_frame_cells)
  have 2: "entities_renderable gs \<longrightarrow> render_next_frame ds gs \<noteq> None"
    using render_next_frame_defined [of gs ds] by auto
  from 1 2 show ?thesis by blast
qed

lemma example_state_renderable: "entities_renderable example_state"
  by code_simp

text \<open>
  C8, as stated, fails at the corners: the loop over the columns runs after the loop
  over the rows, so the cell (0, 0) of the top row holds \<open>|\<close>, not \<open>=\<close>.
\<close>

theorem render_next_frame_corner_counterexample:
  "(case render_next_frame example_display example_state of
      None \<Rightarrow> False
    | Some ds' \<Rightarrow> next_frame ds' ! 0 ! 0 = CHR ''|'' \<and> next_frame ds' ! 0 ! 0 \<noteq> CHR ''='')"
proof -
  from render_next_frame_defined [OF example_state_renderable, of example_display]
  obtain ds' where r: "render_next_frame example_display example_state = Some ds'"
    by blast
  have "0 < SCREEN_HEIGHT" by (simp add: SCREEN_HEIGHT_def)
  then have "next_frame ds' ! 0 ! 0 = CHR ''|''"
    by (rule render_next_frame_cells(2) [OF r])
  with r show ?thesis by simp
qed

theorem render_next_frame_border_witness:
  "(case render_next_frame example_display example_state of
      None \<Rightarrow> False
    | Some ds' \<Rightarrow>
        next_frame ds' ! 5 ! 0 = CHR ''='' \<and> next_frame ds' ! 5 ! 79 = CHR ''='' \<and>
        next_frame ds' ! 0 ! 7 = CHR ''|'' \<and> next_frame ds' ! 299 ! 7 = CHR ''|'')"
proof -
  from render_next_frame_border [of example_display example_state undefined]
    example_state_renderable
  obtain ds' where r: "render_next_frame example_display example_state = Some ds'"
    by blast
  have n: "0 < (5::nat) \<and> 5 < SCREEN_WIDTH - 1" "7 < SCREEN_HEIGHT"
    "SCREEN_HEIGHT - 1 = 79" "SCREEN_WIDTH - 1 = 299"
    by (simp_all add: SCREEN_WIDTH_def SCREEN_HEIGHT_def)
  from r render_next_frame_border [of example_display example_state ds'] have
    a: "\<forall>cx. 0 < cx \<and> cx < SCREEN_WIDTH - 1 \<longrightarrow>
         next_frame ds' ! cx ! 0 = CHR ''='' \<and>
         next_frame ds' ! cx ! (SCREEN_HEIGHT - 1) = CHR ''=''"
    and b: "\<forall>cy < SCREEN_HEIGHT.
         next_frame ds' ! 0 ! cy = CHR ''|'' \<and>
         next_frame ds' ! (SCREEN_WIDTH - 1) ! cy = CHR ''|''"
    by blast+
  from a [rule_format, of 5] b [rule_format, of 7] n r show ?thesis by simp
qed

section \<open>Verification: obstacle recycling\<close>

lemma random_center_range:
  "int (SCREEN_HEIGHT div 4) \<le> random_center v \<and>
   random_center v < int (SCREEN_HEIGHT * 3 div 4)"
  by (simp add: random_center_def SCREEN_HEIGHT_def)

lemma random_center_onto:
  assumes "int (SCREEN_HEIGHT div 4) \<le> cy" and "cy < int (SCREEN_HEIGHT * 3 div 4)"
  shows "random_center (nat (cy - 20)) = cy"
proof -
  from assms have "0 \<le> cy - 20" "cy - 20 < 40" by (simp_all add: SCREEN_HEIGHT_def)
  then have "nat (cy - 20) mod 40 = nat (cy - 20)" by simp
  then show ?thesis using \<open>0 \<le> cy - 20\<close> by (simp add: random_center_def SCREEN_HEIGHT_def)
qed

lemma update_score_counter_fields:
  "update_score_counter gs = Some gs' \<Longrightarrow>
   \<exists>ds. gs' = gs\<lparr>score_counter := (score_counter gs)\<lparr>digits := ds\<rparr>\<rparr>"
  by (auto simp: update_score_counter_def split: option.splits)

lemma scroll_score_obstacles:
  assumes "scroll_score i gs = Some gs3" and "i < length (obstacles gs)"
  shows "\<exists>b. obstacles gs3 =
           (obstacles gs)[i := (obstacles gs ! i)
              \<lparr>obs_x := obs_x (obstacles gs ! i) - 1, score_collected := b\<rparr>]"
    and "obstacle_count gs3 = obstacle_count gs"
    and "screen_type gs3 = screen_type gs"
    and "press_space_to_start gs3 = press_space_to_start gs"
proof -
  let ?o1 = "(obstacles gs ! i)\<lparr>obs_x := obs_x (obstacles gs ! i) - 1\<rparr>"
  let ?gs1 = "gs\<lparr>obstacles := (obstacles gs)[i := ?o1]\<rparr>"
  show "\<exists>b. obstacles gs3 =
           (obstacles gs)[i := (obstacles gs ! i)
              \<lparr>obs_x := obs_x (obstacles gs ! i) - 1, score_collected := b\<rparr>]"
  proof (cases "screen_type ?gs1 = GAME_SCREEN \<and>
            obs_x (obstacles ?gs1 ! i) < pos_x (entity (bird ?gs1)) \<and>
            \<not> score_collected (obstacles ?gs1 ! i)")
    case True
    with assms(1) obtain gs2 where
      u: "update_score_counter (?gs1\<lparr>score := score ?gs1 + 1\<rparr>) = Some gs2"
      and g: "gs3 = gs2\<lparr>obstacles := (obstacles gs2)
                [i := (obstacles gs2 ! i)\<lparr>score_collected := True\<rparr>]\<rparr>"
      by (auto simp: scroll_score_def Let_def split: option.splits)
    from update_score_counter_fields [OF u] have "obstacles gs2 = (obstacles gs)[i := ?o1]"
      by auto
    with g assms(2) have "obstacles gs3 =
           (obstacles gs)[i := (obstacles gs ! i)
              \<lparr>obs_x := obs_x (obstacles gs ! i) - 1, score_collected := True\<rparr>]"
      by simp
    then show ?thesis by blast
  next
    case False
    with assms(1) have "gs3 = ?gs1" by (auto simp: scroll_score_def Let_def)
    then have "obstacles gs3 =
           (obstacles gs)[i := (obstacles gs ! i)
              \<lparr>obs_x := obs_x (obstacles gs ! i) - 1,
               score_collected := score_collected (obstacles gs ! i)\<rparr>]"
      by simp
    then show ?thesis by blast
  qed
  show "obstacle_count gs3 = obstacle_count gs"
    using assms(1)
    by (auto simp: scroll_score_def Let_def split: option.splits if_splits
        dest!: update_score_counter_fields)
  show "screen_type gs3 = screen_type gs"
    using assms(1)
    by (auto simp: scroll_score_def Let_def split: option.splits if_splits
        dest!: update_score_counter_fields)
  show "press_space_to_start gs3 = press_space_to_start gs"
    using assms(1)
    by (auto simp: scroll_score_def Let_def split: option.splits if_splits
        dest!: update_score_counter_fields)
qed

lemma scroll_step_obstacles:
  assumes "scroll_step r i (gs, k) = Some (gs', k')" and "i < length (obstacles gs)"
  shows "length (obstacles gs') = length (obstacles gs)"
    and "m \<noteq> i \<Longrightarrow> obstacles gs' ! m = obstacles gs ! m"
    and "obstacle_count gs' = obstacle_count gs"
    and "k \<le> k'"
    and "off_left (obstacles gs ! i) \<Longrightarrow>
         k' = Suc k \<and> recycled (obstacles gs ! i) (obstacles gs' ! i) (random_center (r k))"
proof -
  from assms(1) obtain gs3 ob where
    s: "scroll_score i gs = Some gs3"
    and rc: "recycle r k (obstacles gs3 ! i) = (ob, k')"
    and g: "gs' = gs3\<lparr>obstacles := (obstacles gs3)[i := update_obstacle ob]\<rparr>"
    by (auto simp: scroll_step_def split: option.splits prod.splits)
  from scroll_score_obstacles(1) [OF s assms(2)] obtain b where
    o3: "obstacles gs3 = (obstacles gs)[i := (obstacles gs ! i)
              \<lparr>obs_x := obs_x (obstacles gs ! i) - 1, score_collected := b\<rparr>]"
    by blast
  show "length (obstacles gs') = length (obstacles gs)" using g o3 by simp
  show "m \<noteq> i \<Longrightarrow> obstacles gs' ! m = obstacles gs ! m" using g o3 by simp
  show "obstacle_count gs' = obstacle_count gs"
    using g scroll_score_obstacles(2) [OF s assms(2)] by simp
  show "k \<le> k'" using rc by (auto simp: recycle_def split: if_splits)
  show "off_left (obstacles gs ! i) \<Longrightarrow>
         k' = Suc k \<and> recycled (obstacles gs ! i) (obstacles gs' ! i) (random_center (r k))"
    using rc g o3 assms(2)
    by (auto simp: off_left_def recycle_def recycled_def update_obstacle_def split: if_splits)
qed

lemma scroll_loop_other:
  "scroll_loop r js (gs, k) = Some (gs', k') \<Longrightarrow> \<forall>j \<in> set js. j < length (obstacles gs) \<Longrightarrow>
   length (obstacles gs') = length (obstacles gs) \<and> obstacle_count gs' = obstacle_count gs \<and>
   k \<le> k' \<and> (\<forall>m. m \<notin> set js \<longrightarrow> obstacles gs' ! m = obstacles gs ! m)"
proof (induction js arbitrary: gs k)
  case Nil
  then show ?case by simp
next
  case (Cons j js)
  from Cons.prems obtain gs1 k1 where
    s: "scroll_step r j (gs, k) = Some (gs1, k1)"
    and l: "scroll_loop r js (gs1, k1) = Some (gs', k')"
    by (auto split: if_splits option.splits)
  from Cons.prems have j: "j < length (obstacles gs)" by simp
  note st = scroll_step_obstacles [OF s j]
  from Cons.prems st(1) have "\<forall>m \<in> set js. m < length (obstacles gs1)" by simp
  from Cons.IH [OF l this] st show ?case by auto
qed

lemma scroll_loop_recycles:
  "scroll_loop r js (gs, k) = Some (gs', k') \<Longrightarrow> \<forall>j \<in> set js. j < length (obstacles gs) \<Longrightarrow>
   distinct js \<Longrightarrow> i \<in> set js \<Longrightarrow> off_left (obstacles gs ! i) \<Longrightarrow>
   \<exists>n. k \<le> n \<and> n < k' \<and> recycled (obstacles gs ! i) (obstacles gs' ! i) (random_center (r n))"
proof (induction js arbitrary: gs k)
  case Nil
  then show ?case by simp
next
  case (Cons j js)
  from Cons.prems(1) obtain gs1 k1 where
    s: "scroll_step r j (gs, k) = Some (gs1, k1)"
    and l: "scroll_loop r js (gs1, k1) = Some (gs', k')"
    by (auto split: if_splits option.splits)
  from Cons.prems have j: "j < length (obstacles gs)" by simp
  note st = scroll_step_obstacles [OF s j]
  from Cons.prems st(1) have b: "\<forall>m \<in> set js. m < length (obstacles gs1)" by simp
  note rest = scroll_loop_other [OF l b]
  show ?case
  proof (cases "i = j")
    case True
    with Cons.prems have "i \<notin> set js" by simp
    with rest have "obstacles gs' ! i = obstacles gs1 ! i" by simp
    moreover from st(5) True Cons.prems(5) have "k1 = Suc k"
      and "recycled (obstacles gs ! i) (obstacles gs1 ! i) (random_center (r k))"
      by simp_all
    moreover from rest have "k1 \<le> k'" by simp
    ultimately have "k \<le> k \<and> k < k' \<and>
        recycled (obstacles gs ! i) (obstacles gs' ! i) (random_center (r k))"
      by simp
    then show ?thesis by blast
  next
    case False
    with st(2) have same: "obstacles gs1 ! i = obstacles gs ! i" by simp
    from False Cons.prems have "i \<in> set js" "distinct js" by simp_all
    with Cons.IH [OF l b, unfolded same] Cons.prems(5) obtain n where
      "k1 \<le> n" "n < k'" "recycled (obstacles gs ! i) (obstacles gs' ! i) (random_center (r n))"
      by auto
    with st(4) have "k \<le> n \<and> n < k' \<and>
        recycled (obstacles gs ! i) (obstacles gs' ! i) (random_center (r n))"
      by simp
    then show ?thesis by blast
  qed
qed

lemma scroll_score_defined:
  assumes "can_score gs (Suc n)"
  shows "\<exists>gs3. scroll_score i gs = Some gs3 \<and> can_score gs3 n"
proof -
  let ?o1 = "(obstacles gs ! i)\<lparr>obs_x := obs_x (obstacles gs ! i) - 1\<rparr>"
  let ?gs1 = "gs\<lparr>obstacles := (obstacles gs)[i := ?o1]\<rparr>"
  show ?thesis
  proof (cases "screen_type ?gs1 = GAME_SCREEN \<and>
            obs_x (obstacles ?gs1 ! i) < pos_x (entity (bird ?gs1)) \<and>
            \<not> score_collected (obstacles ?gs1 ! i)")
    case True
    let ?gs2 = "?gs1\<lparr>score := score ?gs1 + 1\<rparr>"
    from True assms have a: "score ?gs2 < 10 ^ 5"
      "length (digits (score_counter ?gs2)) = SCORE_COUNTER_DIGITS"
      by (auto simp: can_score_def)
    from update_score_counter_result [OF a] obtain ds' where
      u: "update_score_counter ?gs2 = Some (?gs2\<lparr>score_counter := (score_counter ?gs2)
            \<lparr>digits := ds'\<rparr>\<rparr>)"
      and l: "length ds' = SCORE_COUNTER_DIGITS"
      by blast
    let ?gs3 = "?gs2\<lparr>score_counter := (score_counter ?gs2)\<lparr>digits := ds'\<rparr>\<rparr>"
    have "scroll_score i gs =
            Some (?gs3\<lparr>obstacles := (obstacles ?gs3)
                    [i := (obstacles ?gs3 ! i)\<lparr>score_collected := True\<rparr>]\<rparr>)"
      using True u unfolding scroll_score_def Let_def by simp
    moreover have "can_score (?gs3\<lparr>obstacles := (obstacles ?gs3)
                    [i := (obstacles ?gs3 ! i)\<lparr>score_collected := True\<rparr>]\<rparr>) n"
      using assms l True by (auto simp: can_score_def)
    ultimately show ?thesis by blast
  next
    case False
    then have "scroll_score i gs = Some ?gs1"
      unfolding scroll_score_def Let_def by auto
    moreover have "can_score ?gs1 n" using assms by (auto simp: can_score_def)
    ultimately show ?thesis by blast
  qed
qed

lemma scroll_step_defined:
  assumes "can_score gs (Suc n)"
  shows "\<exists>gs' k'. scroll_step r i (gs, k) = Some (gs', k') \<and> can_score gs' n"
proof -
  from scroll_score_defined [OF assms, of i] obtain gs3 where
    s: "scroll_score i gs = Some gs3" and c: "can_score gs3 n"
    by blast
  obtain ob k' where rc: "recycle r k (obstacles gs3 ! i) = (ob, k')"
    by (cases "recycle r k (obstacles gs3 ! i)")
  have "scroll_step r i (gs, k) =
          Some (gs3\<lparr>obstacles := (obstacles gs3)[i := update_obstacle ob]\<rparr>, k')"
    by (simp add: scroll_step_def s rc)
  moreover have "can_score (gs3\<lparr>obstacles := (obstacles gs3)[i := update_obstacle ob]\<rparr>) n"
    using c by (simp add: can_score_def)
  ultimately show ?thesis by blast
qed

lemma scroll_loop_defined:
  "\<forall>j \<in> set js. j < ARRAY_BOUND \<Longrightarrow> can_score gs (length js) \<Longrightarrow>
   \<exists>gs' k'. scroll_loop r js (gs, k) = Some (gs', k')"
proof (induction js arbitrary: gs k)
  case Nil
  then show ?case by simp
next
  case (Cons j js)
  from Cons.prems have "can_score gs (Suc (length js))" by simp
  from scroll_step_defined [OF this, of r j k] obtain gs1 k1 where
    s: "scroll_step r j (gs, k) = Some (gs1, k1)" and c: "can_score gs1 (length js)"
    by blast
  from Cons.IH [OF _ c, of k1] Cons.prems(1) obtain gs' k' where
    "scroll_loop r js (gs1, k1) = Some (gs', k')"
    by auto
  with s Cons.prems(1) show ?case by simp
qed

lemma scroll_world_defined:
  assumes "obstacle_count gs \<le> ARRAY_BOUND" and "can_score gs (obstacle_count gs)"
  shows "\<exists>gs' k'. scroll_world r (gs, k) = Some (gs', k')"
proof -
  have "\<forall>j \<in> set [0..<obstacle_count gs]. j < ARRAY_BOUND" using assms(1) by simp
  moreover have "can_score gs (length [0..<obstacle_count gs])" using assms(2) by simp
  ultimately obtain gs1 k1 where
    "scroll_loop r [0..<obstacle_count gs] (gs, k) = Some (gs1, k1)"
    using scroll_loop_defined by blast
  then show ?thesis by (simp add: scroll_world_def)
qed

lemma scroll_world_obstacle:
  assumes "scroll_world r (gs, k) = Some (gs', k')"
    and "i < obstacle_count gs" and "obstacle_count gs \<le> length (obstacles gs)"
    and "off_left (obstacles gs ! i)"
  shows "\<exists>n. k \<le> n \<and> n < k' \<and>
           recycled (obstacles gs ! i) (obstacles gs' ! i) (random_center (r n))"
proof -
  from assms(1) obtain gs1 where
    l: "scroll_loop r [0..<obstacle_count gs] (gs, k) = Some (gs1, k')"
    and g: "gs' = scroll_title gs1"
    by (auto simp: scroll_world_def split: option.splits)
  have o: "obstacles gs' = obstacles gs1"
    unfolding g by (simp add: scroll_title_def Let_def)
  have b: "\<forall>j \<in> set [0..<obstacle_count gs]. j < length (obstacles gs)"
    using assms(3) by simp
  have "i \<in> set [0..<obstacle_count gs]" using assms(2) by simp
  from scroll_loop_recycles [OF l b distinct_upt this assms(4)] show ?thesis
    unfolding o .
qed

lemma random_center_eq:
  "20 \<le> c \<Longrightarrow> c < 60 \<Longrightarrow> random_center v = c \<longleftrightarrow> v mod 40 = nat (c - 20)"
  by (auto simp: random_center_def SCREEN_HEIGHT_def)

lemma count_residue:
  "j < 40 \<Longrightarrow> length (filter (\<lambda>v. v mod 40 = j) [0..<N]) =
     N div 40 + (if j < N mod 40 then 1 else 0)"
proof (induction N)
  case 0
  then show ?case by simp
next
  case (Suc N)
  show ?case
  proof (cases "Suc (N mod 40) = 40")
    case True
    then have m: "N mod 40 = 39" by simp
    with True have "Suc N mod 40 = 0" "Suc N div 40 = Suc (N div 40)"
      by (simp_all add: mod_Suc div_Suc)
    with Suc m show ?thesis by auto
  next
    case False
    then have "Suc N mod 40 = Suc (N mod 40)" "Suc N div 40 = N div 40"
      by (simp_all add: mod_Suc div_Suc)
    with Suc show ?thesis by auto
  qed
qed

lemma center_count_formula:
  assumes "20 \<le> c" and "c < 60"
  shows "center_count N c = N div 40 + (if nat (c - 20) < N mod 40 then 1 else 0)"
proof -
  from assms have j: "nat (c - 20) < 40" by simp
  have "center_count N c = length (filter (\<lambda>v. v mod 40 = nat (c - 20)) [0..<N])"
    unfolding center_count_def using assms by (simp add: random_center_eq)
  with count_residue [OF j, of N] show ?thesis by simp
qed

lemma double_mod5: "x < 5 \<Longrightarrow> x \<noteq> 0 \<Longrightarrow> (2 * x) mod 5 \<noteq> (0::nat)"
  by presburger

lemma power2_mod5: "(2::nat) ^ j mod 5 \<noteq> 0"
proof (induction j)
  case 0
  show ?case by simp
next
  case (Suc j)
  have e: "(2::nat) ^ Suc j mod 5 = (2 * (2 ^ j mod 5)) mod 5"
    by (simp only: power_Suc mod_mult_right_eq)
  have "(2::nat) ^ j mod 5 < 5" by simp
  from double_mod5 [OF this Suc] show ?case
    unfolding e .
qed

lemma power2_mod40: "(2::nat) ^ j mod 40 \<noteq> 0"
proof
  assume a: "(2::nat) ^ j mod 40 = 0"
  have "(5::nat) dvd 40" by simp
  then have "(2::nat) ^ j mod 40 mod 5 = 2 ^ j mod 5" by (rule mod_mod_cancel)
  with a have "(2::nat) ^ j mod 5 = 0" by (simp only: mod_0)
  with power2_mod5 [of j] show False by (simp only:)
qed

lemma center_count_power2:
  "center_count (2 ^ j) 20 = Suc (center_count (2 ^ j) 59)"
proof -
  have a: "center_count (2 ^ j) 20 = 2 ^ j div 40 + (if nat (20 - 20) < 2 ^ j mod 40 then 1 else 0)"
    by (rule center_count_formula) simp_all
  have b: "center_count (2 ^ j) 59 = 2 ^ j div 40 + (if nat (59 - 20) < 2 ^ j mod 40 then 1 else 0)"
    by (rule center_count_formula) simp_all
  have c: "nat (59 - 20) = 39" "nat (20 - 20) = 0" by simp_all
  have d: "(2::nat) ^ j mod 40 < 40" by simp
  from power2_mod40 [of j] d show ?thesis
    unfolding a b c by (simp del: mod_less_divisor)
qed

text \<open>
  C5, as stated, fails: the centre is not drawn uniformly. Of the \<open>2 ^ 15\<close> values of
  \<open>rand()\<close> (\<open>RAND_MAX = 32767\<close>), 820 give the centre 20 and 819 the centre 59; of
  \<open>2 ^ 31\<close> values, 53687092 and 53687091.
\<close>

theorem random_center_not_uniform:
  "center_count (2 ^ 15) 20 = 820 \<and> center_count (2 ^ 15) 59 = 819 \<and>
   center_count (2 ^ 31) 20 = 53687092 \<and> center_count (2 ^ 31) 59 = 53687091"
  by (simp add: center_count_formula)

text \<open>
  C5 (amended). In one \<open>scroll_world\<close> tick in which no \<open>int\<close> overflows, every
  obstacle whose \<open>x\<close>, once moved one cell to
  the left, is below minus the width of the first view of its top part is recycled:
  its \<open>x\<close> becomes \<open>SCREEN_WIDTH\<close>, its vertical centre becomes
  \<open>(rand() % 40) + 20\<close> for a value \<open>rand()\<close> returned during this tick, hence lies in
  \<open>[SCREEN_HEIGHT / 4, SCREEN_HEIGHT * 3 / 4)\<close>, its score flag is cleared, and its top
  and bottom part are placed at \<open>(x, y - gap)\<close> and \<open>(x, y + gap)\<close>. An obstacle that
  starts the tick at \<open>x = -(topWidth + 1)\<close> meets the condition. Every centre of the
  band is the image of some value of \<open>rand()\<close>, but not of equally many: of the values
  \<open>0, ..., N - 1\<close>, the centre \<open>c\<close> is the image of \<open>N div 40\<close> values, and of one more
  when \<open>c - 20 < N mod 40\<close>; when \<open>N\<close> is a power of two, the centre 20 is the image
  of one value more than the centre 59. The tick returns on the title screen,
  and on the game screen as long as the score counter can show the score.
\<close>

theorem scroll_world_recycles:
  "(scroll_world r (gs, k) = Some (gs', k') \<and> scroll_in_range gs \<and> i < obstacle_count gs \<and>
    obstacle_count gs \<le> length (obstacles gs) \<and> off_left (obstacles gs ! i) \<longrightarrow>
      (\<exists>n. k \<le> n \<and> n < k' \<and>
         recycled (obstacles gs ! i) (obstacles gs' ! i) (random_center (r n))) \<and>
      int (SCREEN_HEIGHT div 4) \<le> obs_y (obstacles gs' ! i) \<and>
      obs_y (obstacles gs' ! i) < int (SCREEN_HEIGHT * 3 div 4)) \<and>
   (obs_x ob = - (width (views (top_entity ob) ! 0) + 1) \<longrightarrow> off_left ob) \<and>
   (int (SCREEN_HEIGHT div 4) \<le> cy \<and> cy < int (SCREEN_HEIGHT * 3 div 4) \<longrightarrow>
      (\<exists>v. random_center v = cy) \<and>
      center_count N cy = N div 40 + (if nat (cy - 20) < N mod 40 then 1 else 0)) \<and>
   center_count (2 ^ j) 20 = Suc (center_count (2 ^ j) 59) \<and>
   (obstacle_count gs \<le> ARRAY_BOUND \<and> can_score gs (obstacle_count gs) \<longrightarrow>
      scroll_world r (gs, k) \<noteq> None)"
proof -
  have 1: "scroll_world r (gs, k) = Some (gs', k') \<and> scroll_in_range gs \<and>
    i < obstacle_count gs \<and>
    obstacle_count gs \<le> length (obstacles gs) \<and> off_left (obstacles gs ! i) \<longrightarrow>
      (\<exists>n. k \<le> n \<and> n < k' \<and>
         recycled (obstacles gs ! i) (obstacles gs' ! i) (random_center (r n))) \<and>
      int (SCREEN_HEIGHT div 4) \<le> obs_y (obstacles gs' ! i) \<and>
      obs_y (obstacles gs' ! i) < int (SCREEN_HEIGHT * 3 div 4)"
  proof (intro impI, elim conjE)
    assume a: "scroll_world r (gs, k) = Some (gs', k')" "i < obstacle_count gs"
      "obstacle_count gs \<le> length (obstacles gs)" "off_left (obstacles gs ! i)"
    from scroll_world_obstacle [OF a] obtain n where
      n: "k \<le> n" "n < k'"
      "recycled (obstacles gs ! i) (obstacles gs' ! i) (random_center (r n))"
      by blast
    from n(3) have "obs_y (obstacles gs' ! i) = random_center (r n)"
      by (simp add: recycled_def)
    with random_center_range [of "r n"] n show
      "(\<exists>n. k \<le> n \<and> n < k' \<and>
         recycled (obstacles gs ! i) (obstacles gs' ! i) (random_center (r n))) \<and>
      int (SCREEN_HEIGHT div 4) \<le> obs_y (obstacles gs' ! i) \<and>
      obs_y (obstacles gs' ! i) < int (SCREEN_HEIGHT * 3 div 4)"
      by auto
  qed
  have 2: "obs_x ob = - (width (views (top_entity ob) ! 0) + 1) \<longrightarrow> off_left ob"
    by (simp add: off_left_def)
  have 3: "int (SCREEN_HEIGHT div 4) \<le> cy \<and> cy < int (SCREEN_HEIGHT * 3 div 4) \<longrightarrow>
      (\<exists>v. random_center v = cy) \<and>
      center_count N cy = N div 40 + (if nat (cy - 20) < N mod 40 then 1 else 0)"
  proof (intro impI, elim conjE)
    assume a: "int (SCREEN_HEIGHT div 4) \<le> cy" "cy < int (SCREEN_HEIGHT * 3 div 4)"
    then have b: "20 \<le> cy" "cy < 60" by (simp_all add: SCREEN_HEIGHT_def)
    from random_center_onto [OF a] have "\<exists>v. random_center v = cy" by blast
    with center_count_formula [OF b, of N] show
      "(\<exists>v. random_center v = cy) \<and>
       center_count N cy = N div 40 + (if nat (cy - 20) < N mod 40 then 1 else 0)"
      by simp
  qed
  have 4: "obstacle_count gs \<le> ARRAY_BOUND \<and> can_score gs (obstacle_count gs) \<longrightarrow>
      scroll_world r (gs, k) \<noteq> None"
    using scroll_world_defined [of gs r k] by auto
  have 5: "center_count (2 ^ j) 20 = Suc (center_count (2 ^ j) 59)"
    by (rule center_count_power2)
  from 1 2 3 5 4 show ?thesis by (intro conjI)
qed

lemma example_recycle_state_facts:
  "obstacle_count example_recycle_state = 3"
  "length (obstacles example_recycle_state) = 25"
  "screen_type example_recycle_state = TITLE_SCREEN"
  "obs_x (obstacles example_recycle_state ! 0) = - 13"
  "gap_size (obstacles example_recycle_state ! 0) = 8"
  "width (views (top_entity (obstacles example_recycle_state ! 0)) ! 0) = 12"
  by (simp_all add: example_recycle_state_def example_state_def example_obstacle_def
      update_obstacle_def box_entity_def)

lemma example_recycle_state_in_range: "scroll_in_range example_recycle_state"
  by code_simp

theorem scroll_world_recycles_witness:
  "scroll_in_range example_recycle_state \<and>
   (case scroll_world (\<lambda>n. 1234 + n) (example_recycle_state, 0) of
      None \<Rightarrow> False
    | Some (gs', k') \<Rightarrow>
        obs_x (obstacles gs' ! 0) = 300 \<and>
        20 \<le> obs_y (obstacles gs' ! 0) \<and> obs_y (obstacles gs' ! 0) < 60 \<and>
        \<not> score_collected (obstacles gs' ! 0) \<and>
        pos_x (top_entity (obstacles gs' ! 0)) = 300 \<and>
        pos_y (top_entity (obstacles gs' ! 0)) = obs_y (obstacles gs' ! 0) - 8 \<and>
        pos_x (bottom_entity (obstacles gs' ! 0)) = 300 \<and>
        pos_y (bottom_entity (obstacles gs' ! 0)) = obs_y (obstacles gs' ! 0) + 8) \<and>
   (\<exists>v. random_center v = 37) \<and>
   center_count (2 ^ 15) 27 = 820 \<and> center_count (2 ^ 15) 28 = 819"
proof -
  let ?gs = example_recycle_state and ?r = "\<lambda>n. 1234 + n"
  note f = example_recycle_state_facts
  note g = example_recycle_state_in_range
  have c: "obstacle_count ?gs \<le> ARRAY_BOUND \<and> can_score ?gs (obstacle_count ?gs)"
    by (simp add: f can_score_def ARRAY_BOUND_def)
  from c scroll_world_recycles [of ?r ?gs 0 undefined undefined 0 "obstacles ?gs ! 0" 0 0 15]
  obtain gs' k' where r: "scroll_world ?r (?gs, 0) = Some (gs', k')"
    by auto
  have x: "obs_x (obstacles ?gs ! 0) = - (width (views (top_entity (obstacles ?gs ! 0)) ! 0) + 1)"
    by (simp add: f)
  have h: "0 < obstacle_count ?gs \<and> obstacle_count ?gs \<le> length (obstacles ?gs)"
    by (simp add: f)
  from r g x h scroll_world_recycles [of ?r ?gs 0 gs' k' 0 "obstacles ?gs ! 0" 0 0 15]
  have "(\<exists>n. recycled (obstacles ?gs ! 0) (obstacles gs' ! 0) (random_center (?r n))) \<and>
      int (SCREEN_HEIGHT div 4) \<le> obs_y (obstacles gs' ! 0) \<and>
      obs_y (obstacles gs' ! 0) < int (SCREEN_HEIGHT * 3 div 4)"
    by blast
  moreover have b: "int (SCREEN_HEIGHT div 4) \<le> 37 \<and> 37 < int (SCREEN_HEIGHT * 3 div 4)"
    "int (SCREEN_HEIGHT div 4) \<le> 27 \<and> 27 < int (SCREEN_HEIGHT * 3 div 4)"
    "int (SCREEN_HEIGHT div 4) \<le> 28 \<and> 28 < int (SCREEN_HEIGHT * 3 div 4)"
    by (simp_all add: SCREEN_HEIGHT_def)
  from b(1) scroll_world_recycles [of ?r ?gs 0 gs' k' 0 "obstacles ?gs ! 0" 37 0 15]
  have "\<exists>v. random_center v = 37" by blast
  moreover from b(2) scroll_world_recycles [of ?r ?gs 0 gs' k' 0 "obstacles ?gs ! 0" 27 "2 ^ 15" 15]
  have "center_count (2 ^ 15) 27 = 820" by simp
  moreover from b(3) scroll_world_recycles [of ?r ?gs 0 gs' k' 0 "obstacles ?gs ! 0" 28 "2 ^ 15" 15]
  have "center_count (2 ^ 15) 28 = 819" by simp
  ultimately show ?thesis
    unfolding r using g by (auto simp: recycled_def f SCREEN_HEIGHT_def SCREEN_WIDTH_def)
qed

section \<open>Verification: game state machine\<close>

lemma start_loop_result:
  "distinct js \<Longrightarrow> \<forall>j \<in> set js. j < ARRAY_BOUND \<and> j < length (obstacles gs) \<Longrightarrow>
   \<exists>obs'. start_loop r js (gs, k) = Some (gs\<lparr>obstacles := obs'\<rparr>, k + length js) \<and>
     length obs' = length (obstacles gs) \<and>
     (\<forall>m. m \<notin> set js \<longrightarrow> obs' ! m = obstacles gs ! m) \<and>
     (\<forall>p < length js. placed (obstacles gs ! (js ! p)) (obs' ! (js ! p))
        (start_x gs (js ! p)) (random_center (r (k + p))))"
proof (induction js arbitrary: gs k)
  case Nil
  show ?case by (rule exI [of _ "obstacles gs"]) simp
next
  case (Cons j js)
  let ?ob = "update_obstacle ((obstacles gs ! j)
                \<lparr>obs_x := int (SCREEN_WIDTH div 4) + int (j * SCREEN_WIDTH div obstacle_count gs),
                 obs_y := random_center (r k), score_collected := False\<rparr>)"
  let ?gs1 = "gs\<lparr>obstacles := (obstacles gs)[j := ?ob]\<rparr>"
  from Cons.prems have j: "j < ARRAY_BOUND" "j < length (obstacles gs)" "j \<notin> set js"
    and d: "distinct js"
    and b: "\<forall>m \<in> set js. m < ARRAY_BOUND \<and> m < length (obstacles ?gs1)"
    by auto
  have pj: "placed (obstacles gs ! j) ?ob (start_x gs j) (random_center (r k))"
    by (simp add: placed_def update_obstacle_def start_x_def)
  from Cons.IH [OF d b, of "Suc k"] obtain obs' where
    r: "start_loop r js (?gs1, Suc k) = Some (?gs1\<lparr>obstacles := obs'\<rparr>, Suc k + length js)"
    and l: "length obs' = length (obstacles ?gs1)"
    and o: "\<forall>m. m \<notin> set js \<longrightarrow> obs' ! m = obstacles ?gs1 ! m"
    and c: "\<forall>p < length js. placed (obstacles ?gs1 ! (js ! p)) (obs' ! (js ! p))
        (start_x ?gs1 (js ! p)) (random_center (r (Suc k + p)))"
    by blast
  have "start_loop r (j # js) (gs, k) = Some (gs\<lparr>obstacles := obs'\<rparr>, k + length (j # js))"
    using j r by simp
  moreover have "length obs' = length (obstacles gs)" using l by simp
  moreover have "\<forall>m. m \<notin> set (j # js) \<longrightarrow> obs' ! m = obstacles gs ! m"
    using o by simp
  moreover have "\<forall>p < length (j # js). placed (obstacles gs ! ((j # js) ! p))
        (obs' ! ((j # js) ! p)) (start_x gs ((j # js) ! p)) (random_center (r (k + p)))"
  proof (intro allI impI)
    fix p assume p: "p < length (j # js)"
    show "placed (obstacles gs ! ((j # js) ! p))
        (obs' ! ((j # js) ! p)) (start_x gs ((j # js) ! p)) (random_center (r (k + p)))"
    proof (cases p)
      case 0
      from o j have "obs' ! j = ?ob" by simp
      with pj 0 show ?thesis by simp
    next
      case (Suc q)
      with p have q: "q < length js" by simp
      then have "js ! q \<in> set js" by simp
      with j have "js ! q \<noteq> j" by auto
      then have e1: "obstacles ?gs1 ! (js ! q) = obstacles gs ! (js ! q)" by simp
      have e2: "start_x ?gs1 (js ! q) = start_x gs (js ! q)" by (simp add: start_x_def)
      from c q have "placed (obstacles ?gs1 ! (js ! q)) (obs' ! (js ! q))
        (start_x ?gs1 (js ! q)) (random_center (r (Suc k + q)))"
        by blast
      then have "placed (obstacles gs ! (js ! q)) (obs' ! (js ! q))
        (start_x gs (js ! q)) (random_center (r (Suc k + q)))"
        unfolding e1 e2 .
      then show ?thesis using Suc by simp
    qed
  qed
  ultimately show ?case by blast
qed

lemma update_score_counter_zero:
  assumes "score gs = 0" and "length (digits (score_counter gs)) = SCORE_COUNTER_DIGITS"
  shows "\<exists>ds'. update_score_counter gs =
           Some (gs\<lparr>score_counter := (score_counter gs)\<lparr>digits := ds'\<rparr>\<rparr>) \<and>
         (\<forall>i < SCORE_COUNTER_DIGITS. \<not> visible (ds' ! i))"
proof -
  have "score gs < 10 ^ 5" using assms(1) by simp
  from update_score_counter_result [OF this assms(2)] assms(1) show ?thesis
    by auto
qed

lemma start_game_result:
  assumes "length (digits (score_counter gs)) = SCORE_COUNTER_DIGITS"
    and "obstacle_count gs \<le> ARRAY_BOUND" and "obstacle_count gs \<le> length (obstacles gs)"
  shows "\<exists>gs'. start_game r (gs, k) = Some (gs', k + obstacle_count gs) \<and>
     screen_type gs' = GAME_SCREEN \<and> score gs' = 0 \<and>
     (\<forall>i < SCORE_COUNTER_DIGITS. \<not> visible (digits (score_counter gs') ! i)) \<and>
     \<not> visible (title_text gs') \<and> \<not> visible (press_space_to_start gs') \<and>
     pos_x (entity (bird gs')) = 10 \<and> pos_y (entity (bird gs')) = int (SCREEN_HEIGHT div 2) \<and>
     (\<forall>i < obstacle_count gs.
        placed (obstacles gs ! i) (obstacles gs' ! i) (start_x gs i) (random_center (r (k + i))))"
proof -
  let ?gs0 = "gs\<lparr>screen_type := GAME_SCREEN,
                    press_space_to_start := (press_space_to_start gs)\<lparr>visible := False\<rparr>,
                    title_text := (title_text gs)\<lparr>visible := False\<rparr>,
                    bird := (bird gs)\<lparr>entity := (entity (bird gs))
                              \<lparr>pos_x := 10, pos_y := int (SCREEN_HEIGHT div 2)\<rparr>\<rparr>,
                    score := 0\<rparr>"
  have "score ?gs0 = 0" "length (digits (score_counter ?gs0)) = SCORE_COUNTER_DIGITS"
    using assms(1) by simp_all
  from update_score_counter_zero [OF this] obtain ds' where
    u: "update_score_counter ?gs0 =
          Some (?gs0\<lparr>score_counter := (score_counter ?gs0)\<lparr>digits := ds'\<rparr>\<rparr>)"
    and v: "\<forall>i < SCORE_COUNTER_DIGITS. \<not> visible (ds' ! i)"
    by blast
  let ?gs1 = "?gs0\<lparr>score_counter := (score_counter ?gs0)\<lparr>digits := ds'\<rparr>\<rparr>"
  have b: "\<forall>j \<in> set [0..<obstacle_count ?gs1]. j < ARRAY_BOUND \<and> j < length (obstacles ?gs1)"
    using assms(2,3) by simp
  from start_loop_result [OF distinct_upt b, of r k] obtain obs' where
    r: "start_loop r [0..<obstacle_count ?gs1] (?gs1, k) =
          Some (?gs1\<lparr>obstacles := obs'\<rparr>, k + length [0..<obstacle_count ?gs1])"
    and c: "\<forall>p < length [0..<obstacle_count ?gs1].
        placed (obstacles ?gs1 ! ([0..<obstacle_count ?gs1] ! p))
          (obs' ! ([0..<obstacle_count ?gs1] ! p))
          (start_x ?gs1 ([0..<obstacle_count ?gs1] ! p)) (random_center (r (k + p)))"
    by blast
  have "start_game r (gs, k) = Some (?gs1\<lparr>obstacles := obs'\<rparr>, k + obstacle_count gs)"
    using u r by (simp add: start_game_def)
  moreover have "\<forall>i < obstacle_count gs.
        placed (obstacles gs ! i) (obs' ! i) (start_x gs i) (random_center (r (k + i)))"
    using c by (simp add: start_x_def)
  ultimately show ?thesis using v by simp
qed

lemma check_collision_defined:
  "current_view a < VIEWS_BOUND \<Longrightarrow> current_view b < VIEWS_BOUND \<Longrightarrow>
   \<exists>c. check_collision a b = Some c"
  by (simp add: check_collision_def Let_def)

lemma end_game_idem: "end_game (end_game gs) = end_game gs"
  by (simp add: end_game_def)

lemma hit_end_game: "hit (end_game gs) i = hit gs i"
  by (simp add: hit_def end_game_def)

lemma collision_loop_result:
  "current_view (entity (bird gs)) < VIEWS_BOUND \<Longrightarrow>
   \<forall>j \<in> set js. j < ARRAY_BOUND \<and>
      current_view (top_entity (obstacles gs ! j)) < VIEWS_BOUND \<and>
      current_view (bottom_entity (obstacles gs ! j)) < VIEWS_BOUND \<Longrightarrow>
   collision_loop js gs = Some (if \<exists>j \<in> set js. hit gs j then end_game gs else gs)"
proof (induction js arbitrary: gs)
  case Nil
  then show ?case by simp
next
  case (Cons j js)
  from Cons.prems have j: "j < ARRAY_BOUND"
    and rt: "current_view (top_entity (obstacles gs ! j)) < VIEWS_BOUND"
    and rb: "current_view (bottom_entity (obstacles gs ! j)) < VIEWS_BOUND"
    and b: "\<forall>m \<in> set js. m < ARRAY_BOUND \<and>
      current_view (top_entity (obstacles gs ! m)) < VIEWS_BOUND \<and>
      current_view (bottom_entity (obstacles gs ! m)) < VIEWS_BOUND"
    by auto
  from check_collision_defined [OF Cons.prems(1) rt] obtain ct where
    ct: "check_collision (entity (bird gs)) (top_entity (obstacles gs ! j)) = Some ct"
    by blast
  from check_collision_defined [OF Cons.prems(1) rb] obtain cb where
    cb: "check_collision (entity (bird gs)) (bottom_entity (obstacles gs ! j)) = Some cb"
    by blast
  have h: "hit gs j = (ct \<or> cb)" by (simp add: hit_def ct cb)
  have keep: "collision_loop js gs = Some (if \<exists>m \<in> set js. hit gs m then end_game gs else gs)"
    using Cons.IH [OF Cons.prems(1) b] .
  have e1: "current_view (entity (bird (end_game gs))) < VIEWS_BOUND"
    using Cons.prems(1) by (simp add: end_game_def)
  have e2: "\<forall>m \<in> set js. m < ARRAY_BOUND \<and>
      current_view (top_entity (obstacles (end_game gs) ! m)) < VIEWS_BOUND \<and>
      current_view (bottom_entity (obstacles (end_game gs) ! m)) < VIEWS_BOUND"
    using b by (simp add: end_game_def)
  have ended: "collision_loop js (end_game gs) = Some (end_game gs)"
    using Cons.IH [OF e1 e2] by (simp add: end_game_idem)
  show ?case
  proof (cases "ct \<or> cb")
    case True
    then have "collision_loop (j # js) gs = Some (end_game gs)"
      using j ct cb ended by (cases ct; cases cb) simp_all
    with True h show ?thesis by simp
  next
    case False
    then have "collision_loop (j # js) gs = collision_loop js gs"
      using j ct cb by simp
    with False h keep show ?thesis by simp
  qed
qed

lemma end_checks_result:
  assumes "screen_type gs = GAME_SCREEN" and "parts_readable gs"
  shows "end_checks gs =
           Some (if (\<exists>i < obstacle_count gs. hit gs i) \<or> out_of_screen (entity (bird gs))
                 then end_game gs else gs)"
proof -
  from assms(2) have rb: "current_view (entity (bird gs)) < VIEWS_BOUND"
    and b: "\<forall>j \<in> set [0..<obstacle_count gs]. j < ARRAY_BOUND \<and>
      current_view (top_entity (obstacles gs ! j)) < VIEWS_BOUND \<and>
      current_view (bottom_entity (obstacles gs ! j)) < VIEWS_BOUND"
    by (auto simp: parts_readable_def list_all_iff)
  have o: "out_of_screen (entity (bird (end_game gs))) = out_of_screen (entity (bird gs))"
    by (simp add: end_game_def)
  show ?thesis
    unfolding end_checks_def collision_loop_result [OF rb b]
    using assms(1) by (auto simp: end_game_idem o)
qed

lemma end_checks_edges:
  assumes "screen_type gs = GAME_SCREEN" and "parts_readable gs"
    and "pos_x (entity (bird gs)) < 0 \<or> 300 < pos_x (entity (bird gs)) \<or>
         pos_y (entity (bird gs)) < 0 \<or> 80 < pos_y (entity (bird gs))"
  shows "end_checks gs = Some (end_game gs)"
  using assms(3)
  by (simp add: end_checks_result [OF assms(1,2)] out_of_screen_def SCREEN_WIDTH_def
      SCREEN_HEIGHT_def)

lemma end_checks_inside:
  assumes "screen_type gs = GAME_SCREEN" and "parts_readable gs"
    and "\<forall>i < obstacle_count gs. \<not> hit gs i"
    and "0 \<le> pos_x (entity (bird gs))" and "pos_x (entity (bird gs)) \<le> 300"
    and "0 \<le> pos_y (entity (bird gs))" and "pos_y (entity (bird gs)) \<le> 80"
  shows "end_checks gs = Some gs"
  using assms(3-7)
  by (auto simp: end_checks_result [OF assms(1,2)] out_of_screen_def SCREEN_WIDTH_def
      SCREEN_HEIGHT_def)

lemma hit_overlap:
  assumes "current_view (entity (bird gs)) < VIEWS_BOUND"
    and "current_view (top_entity (obstacles gs ! i)) < VIEWS_BOUND"
    and "box_in_range (entity (bird gs))" and "box_in_range (top_entity (obstacles gs ! i))"
    and "boxes_overlap (entity (bird gs)) (top_entity (obstacles gs ! i))"
    and "box_left (entity (bird gs)) \<noteq> box_left (top_entity (obstacles gs ! i))"
    and "box_top (entity (bird gs)) \<noteq> box_top (top_entity (obstacles gs ! i))"
  shows "hit gs i"
  using assms(5-7)
  unfolding hit_def check_collision_Some [OF assms(1-4)] boxes_overlap_def intervals_meet_iff
  by auto

lemma end_game_result:
  "screen_type (end_game gs) = TITLE_SCREEN \<and> score (end_game gs) = 0 \<and>
   visible (title_text (end_game gs)) \<and> visible (press_space_to_start (end_game gs))"
  by (simp add: end_game_def)

text \<open>
  C4. The game does not end on every collision. In \<open>example_playing_state 150 30\<close> the
  game is running and the bird, flush with the left edge of the pipes, has risen from
  the gap into the top part: its box \<open>[150, 155) \<times> [30, 33)\<close> and the box
  \<open>[150, 162) \<times> [2, 32)\<close> of the part share the cells of rows 30 and 31. The checks
  of \<open>game_tick\<close> leave the state as it is, so the game goes on. With the bird two
  cells further left the same checks end the game; so they do with the bird right of
  the screen at \<open>x = 301\<close>; with the bird in the gap they rightly change nothing.
\<close>

theorem end_checks_misses_aligned_collision:
  "screen_type (example_playing_state 150 30) = GAME_SCREEN \<and>
   boxes_overlap (entity (bird (example_playing_state 150 30)))
     (top_entity (obstacles (example_playing_state 150 30) ! 0)) \<and>
   box_left (entity (bird (example_playing_state 150 30))) = 150 \<and>
   box_left (top_entity (obstacles (example_playing_state 150 30) ! 0)) = 150 \<and>
   end_checks (example_playing_state 150 30) = Some (example_playing_state 150 30) \<and>
   boxes_overlap (entity (bird (example_playing_state 148 30)))
     (top_entity (obstacles (example_playing_state 148 30) ! 0)) \<and>
   end_checks (example_playing_state 148 30) = Some (end_game (example_playing_state 148 30)) \<and>
   end_checks (example_playing_state 301 38) = Some (end_game (example_playing_state 301 38)) \<and>
   \<not> boxes_overlap (entity (bird (example_playing_state 150 38)))
     (top_entity (obstacles (example_playing_state 150 38) ! 0)) \<and>
   \<not> boxes_overlap (entity (bird (example_playing_state 150 38)))
     (bottom_entity (obstacles (example_playing_state 150 38) ! 0)) \<and>
   end_checks (example_playing_state 150 38) = Some (example_playing_state 150 38) \<and>
   screen_type (end_game (example_playing_state 148 30)) = TITLE_SCREEN \<and>
   score (end_game (example_playing_state 148 30)) = 0"
  by code_simp

end
